theory Spec2Isabelle
  imports Main
begin

section \<open>flagconf: environment and config-file sources for a flag registry\<close>

text \<open>
  The development embeds the Go package \<open>flagconf\<close>, in its current revision: the one
  with \<open>os.Expand\<close>, \<open>ReadEnvPrefix\<close> and \<open>genEnvMap\<close>, which the test script
  exercises. (The source tree also holds an earlier revision; the last subsection says
  where it differs.) A Go \<open>string\<close> is a byte sequence, modelled as \<open>string\<close> (a list
  of 8-bit \<open>char\<close>s). The functions of Go's standard library that the package calls are
  modelled first, then the package itself.
\<close>

subsection \<open>Package strings\<close>

definition HasPrefix :: "string \<Rightarrow> string \<Rightarrow> bool" where
  "HasPrefix s p = (length p \<le> length s \<and> take (length p) s = p)"

definition HasSuffix :: "string \<Rightarrow> string \<Rightarrow> bool" where
  "HasSuffix s p = (length p \<le> length s \<and> drop (length s - length p) s = p)"

text \<open>\<open>strings.Index\<close>: the position of the first occurrence, \<open>None\<close> for Go's \<open>-1\<close>.\<close>

fun Index :: "string \<Rightarrow> string \<Rightarrow> nat option" where
  "Index [] sep = (if sep = [] then Some 0 else None)"
| "Index (c # cs) sep =
     (if HasPrefix (c # cs) sep then Some 0 else map_option Suc (Index cs sep))"

text \<open>\<open>strings.IndexAny\<close> for a set of ASCII bytes.\<close>

fun IndexAny :: "string \<Rightarrow> string \<Rightarrow> nat option" where
  "IndexAny [] chars = None"
| "IndexAny (c # cs) chars =
     (if c \<in> set chars then Some 0 else map_option Suc (IndexAny cs chars))"

text \<open>\<open>strings.Cut\<close>: before, after, found.\<close>

definition Cut :: "string \<Rightarrow> string \<Rightarrow> string \<times> string \<times> bool" where
  "Cut s sep =
     (case Index s sep of
        Some i \<Rightarrow> (take i s, drop (i + length sep) s, True)
      | None \<Rightarrow> (s, [], False))"

lemma Index_bound: "Index s sep = Some m \<Longrightarrow> m + length sep \<le> length s"
proof (induction s arbitrary: m)
  case Nil
  then show ?case by (simp split: if_splits)
next
  case (Cons c cs)
  show ?case
  proof (cases "HasPrefix (c # cs) sep")
    case True
    with Cons.prems show ?thesis by (simp add: HasPrefix_def)
  next
    case False
    with Cons.prems obtain k where "Index cs sep = Some k" "m = Suc k" by auto
    with Cons.IH show ?thesis by fastforce
  qed
qed

text \<open>
  \<open>strings.Split(s, sep)\<close>: the substrings between the leftmost, non-overlapping
  occurrences of \<open>sep\<close>; \<open>Split("", sep)\<close> is the one-element list of the empty string.
  With an empty \<open>sep\<close> Go splits after each UTF-8 sequence, here after each byte (the
  same for ASCII).
\<close>

function Split :: "string \<Rightarrow> string \<Rightarrow> string list" where
  "Split s sep =
     (if sep = [] then map (\<lambda>c. [c]) s
      else (case Index s sep of
              None \<Rightarrow> [s]
            | Some m \<Rightarrow> take m s # Split (drop (m + length sep) s) sep))"
  by pat_completeness auto
termination
proof (relation "measure (\<lambda>(s, sep). length s)")
  show "wf (measure (\<lambda>(s, sep). length s))" by simp
next
  fix s sep :: string and m :: nat
  assume "sep \<noteq> []" and "Index s sep = Some m"
  then have "m + length sep \<le> length s" and "0 < length sep"
    using Index_bound by auto
  then have "length (drop (m + length sep) s) < length s"
    by (simp only: length_drop)
  then show "((drop (m + length sep) s, sep), (s, sep)) \<in> measure (\<lambda>(s, sep). length s)"
    by simp
qed

declare Split.simps [simp del]

text \<open>
  \<open>strings.ReplaceAll(s, old, new)\<close>: every leftmost, non-overlapping occurrence of
  \<open>old\<close> replaced. With an empty \<open>old\<close> Go inserts \<open>new\<close> before each UTF-8 sequence
  and at the end, here before each byte (the same for ASCII).
\<close>

function ReplaceAll :: "string \<Rightarrow> string \<Rightarrow> string \<Rightarrow> string" where
  "ReplaceAll s old new =
     (if old = [] then concat (map (\<lambda>c. new @ [c]) s) @ new
      else (case Index s old of
              None \<Rightarrow> s
            | Some j \<Rightarrow> take j s @ new @ ReplaceAll (drop (j + length old) s) old new))"
  by pat_completeness auto
termination
proof (relation "measure (\<lambda>(s, old, new). length s)")
  show "wf (measure (\<lambda>(s, old, new). length s))" by simp
next
  fix s old new :: string and j :: nat
  assume "old \<noteq> []" and "Index s old = Some j"
  then have "j + length old \<le> length s" and "0 < length old"
    using Index_bound by auto
  then have "length (drop (j + length old) s) < length s"
    by (simp only: length_drop)
  then show "((drop (j + length old) s, old, new), (s, old, new))
               \<in> measure (\<lambda>(s, old, new). length s)"
    by simp
qed

declare ReplaceAll.simps [simp del]

text \<open>\<open>strings.Join\<close>.\<close>

fun Join :: "string list \<Rightarrow> string \<Rightarrow> string" where
  "Join [] sep = []"
| "Join [x] sep = x"
| "Join (x # y # ys) sep = x @ sep @ Join (y # ys) sep"

text \<open>
  Package \<open>unicode/utf8\<close>. A rune is an integer (Go's \<open>int32\<close>). \<open>DecodeRuneInString\<close> reads the
  first rune of a string and its width in bytes; bytes that are not the shortest
  encoding of a rune in U+0000..U+D7FF or U+E000..U+10FFFF give \<open>RuneError\<close> with
  width 1. The table \<open>first\<close> and the \<open>acceptRanges\<close> of the package are written out:
  a lead byte \<open>C2\<close>..\<open>DF\<close> begins two bytes, \<open>E0\<close>..\<open>EF\<close> three, \<open>F0\<close>..\<open>F4\<close> four, and
  the second byte is in \<open>80\<close>..\<open>BF\<close> but for the lead bytes \<open>E0\<close>, \<open>ED\<close>, \<open>F0\<close> and
  \<open>F4\<close>.
\<close>

definition RuneError :: int where
  "RuneError = 0xFFFD"

fun DecodeRuneInString :: "string \<Rightarrow> int \<times> nat" where
  "DecodeRuneInString [] = (RuneError, 0)"
| "DecodeRuneInString (c0 # cs) =
     (let s0 = (of_char c0 :: int)
      in if s0 < 0x80 then (s0, 1)
         else if s0 < 0xC2 \<or> 0xF4 < s0 then (RuneError, 1)
         else
           (let sz = (if s0 < 0xE0 then 2 else if s0 < 0xF0 then 3 else 4 :: nat);
                lo = (if s0 = 0xE0 then 0xA0 else if s0 = 0xF0 then 0x90 else 0x80 :: int);
                hi = (if s0 = 0xED then 0x9F else if s0 = 0xF4 then 0x8F else 0xBF :: int)
            in if length (c0 # cs) < sz then (RuneError, 1)
               else
                 (let s1 = (of_char (cs ! 0) :: int)
                  in if s1 < lo \<or> hi < s1 then (RuneError, 1)
                     else if sz \<le> 2 then ((s0 mod 32) * 64 + s1 mod 64, 2)
                     else
                       (let s2 = (of_char (cs ! 1) :: int)
                        in if s2 < 0x80 \<or> 0xBF < s2 then (RuneError, 1)
                           else if sz \<le> 3
                           then ((s0 mod 16) * 4096 + (s1 mod 64) * 64 + s2 mod 64, 3)
                           else
                             (let s3 = (of_char (cs ! 2) :: int)
                              in if s3 < 0x80 \<or> 0xBF < s3 then (RuneError, 1)
                                 else ((s0 mod 8) * 262144 + (s1 mod 64) * 4096
                                       + (s2 mod 64) * 64 + s3 mod 64, 4))))))"

lemma DecodeRuneInString_width: "s \<noteq> [] \<Longrightarrow> 0 < snd (DecodeRuneInString s)"
  by (cases s) (simp_all add: Let_def)

text \<open>The runes of a string, as \<open>for _, c := range s\<close> yields them.\<close>

function runes :: "string \<Rightarrow> int list" where
  "runes s =
     (if s = [] then []
      else fst (DecodeRuneInString s) # runes (drop (snd (DecodeRuneInString s)) s))"
  by pat_completeness auto

termination
proof (relation "measure length")
  show "wf (measure length)" by simp
next
  fix s :: string
  assume "s \<noteq> []"
  then have "0 < snd (DecodeRuneInString s)" and "0 < length s"
    by (simp_all add: DecodeRuneInString_width)
  then have "length (drop (snd (DecodeRuneInString s)) s) < length s"
    by simp
  then show "(drop (snd (DecodeRuneInString s)) s, s) \<in> measure length" by simp
qed

declare runes.simps [simp del]

text \<open>
  \<open>utf8.AppendRune\<close>, which \<open>WriteRune\<close> calls: a surrogate and a number that is not in
  U+0000..U+10FFFF (a negative one as well, which the conversion to \<open>uint32\<close> makes
  large) are written as \<open>RuneError\<close>.
\<close>

definition AppendRune :: "int \<Rightarrow> string" where
  "AppendRune r =
     (if 0 \<le> r \<and> r \<le> 0x7F then [char_of r]
      else if 0 \<le> r \<and> r \<le> 0x7FF then [char_of (0xC0 + r div 64), char_of (0x80 + r mod 64)]
      else
        (let r1 = (if r < 0 \<or> 0x10FFFF < r \<or> (0xD800 \<le> r \<and> r \<le> 0xDFFF) then RuneError
                   else r)
         in if r1 \<le> 0xFFFF
            then [char_of (0xE0 + r1 div 4096), char_of (0x80 + (r1 div 64) mod 64),
                  char_of (0x80 + r1 mod 64)]
            else [char_of (0xF0 + r1 div 262144), char_of (0x80 + (r1 div 4096) mod 64),
                  char_of (0x80 + (r1 div 64) mod 64), char_of (0x80 + r1 mod 64)]))"

text \<open>
  \<open>strings.Map\<close>: every rune of the string, an invalid byte as \<open>RuneError\<close>, is mapped
  and written, and dropped where the mapping returns a negative number. (Go copies the
  string up to the first rune that the mapping changes or that is an invalid byte; what
  it copies is the encoding of the runes it has read, which is what is written here.)
\<close>

definition strings_Map :: "(int \<Rightarrow> int) \<Rightarrow> string \<Rightarrow> string" where
  "strings_Map mapping s =
     concat (map (\<lambda>c. let r = mapping c in if 0 \<le> r then AppendRune r else []) (runes s))"

text \<open>
  \<open>unicode.ToUpper\<close>: the letters of ASCII are mapped by arithmetic, every other rune
  through the case table of the package (\<open>unicode.CaseRanges\<close>, data of the Go
  distribution), which is the parameter \<open>upperCase\<close>: the rune that the table gives for
  a rune above U+007F, the rune itself where it has no entry.
\<close>

definition unicode_ToUpper :: "(int \<Rightarrow> int) \<Rightarrow> int \<Rightarrow> int" where
  "unicode_ToUpper upperCase r =
     (if r \<le> 0x7F then (if 97 \<le> r \<and> r \<le> 122 then r - 32 else r) else upperCase r)"

text \<open>
  \<open>strings.ToUpper\<close>. A string of ASCII bytes is returned as it is when it has no
  lower-case letter, and else with \<open>a\<close>..\<open>z\<close> mapped to \<open>A\<close>..\<open>Z\<close> byte by byte; any
  other string goes through \<open>strings.Map\<close> with \<open>unicode.ToUpper\<close>.
\<close>

definition upperByte :: "char \<Rightarrow> char" where
  "upperByte c =
     (if 97 \<le> (of_char c :: nat) \<and> (of_char c :: nat) \<le> 122
      then char_of ((of_char c :: nat) - 32) else c)"

definition ToUpper :: "(int \<Rightarrow> int) \<Rightarrow> string \<Rightarrow> string" where
  "ToUpper upperCase s =
     (if list_all (\<lambda>c. (of_char c :: nat) < 0x80) s
      then (if \<not> list_ex (\<lambda>c. 97 \<le> (of_char c :: nat) \<and> (of_char c :: nat) \<le> 122) s then s
            else map upperByte s)
      else strings_Map (unicode_ToUpper upperCase) s)"

text \<open>
  \<open>strings.TrimSpace\<close> removes the leading and the trailing runes that
  \<open>unicode.IsSpace\<close> accepts. \<open>spaceRunes\<close> lists the UTF-8 encodings of these runes:
  the six ASCII ones (tab, line feed, vertical tab, form feed, carriage return, space),
  U+0085, U+00A0, U+1680, U+2000 to U+200A, U+2028, U+2029, U+202F, U+205F and U+3000.
\<close>

definition spaceRunes :: "string list" where
  "spaceRunes =
     [[CHR 0x09], [CHR 0x0A], [CHR 0x0B], [CHR 0x0C], [CHR 0x0D], [CHR 0x20],
      [CHR 0xC2, CHR 0x85], [CHR 0xC2, CHR 0xA0],
      [CHR 0xE1, CHR 0x9A, CHR 0x80],
      [CHR 0xE2, CHR 0x80, CHR 0x80], [CHR 0xE2, CHR 0x80, CHR 0x81],
      [CHR 0xE2, CHR 0x80, CHR 0x82], [CHR 0xE2, CHR 0x80, CHR 0x83],
      [CHR 0xE2, CHR 0x80, CHR 0x84], [CHR 0xE2, CHR 0x80, CHR 0x85],
      [CHR 0xE2, CHR 0x80, CHR 0x86], [CHR 0xE2, CHR 0x80, CHR 0x87],
      [CHR 0xE2, CHR 0x80, CHR 0x88], [CHR 0xE2, CHR 0x80, CHR 0x89],
      [CHR 0xE2, CHR 0x80, CHR 0x8A],
      [CHR 0xE2, CHR 0x80, CHR 0xA8], [CHR 0xE2, CHR 0x80, CHR 0xA9],
      [CHR 0xE2, CHR 0x80, CHR 0xAF],
      [CHR 0xE2, CHR 0x81, CHR 0x9F],
      [CHR 0xE3, CHR 0x80, CHR 0x80]]"

text \<open>The leading space rune of a string, if it has one.\<close>

definition leadingSpace :: "string \<Rightarrow> string option" where
  "leadingSpace s = find (\<lambda>w. HasPrefix s w) spaceRunes"

definition trailingSpace :: "string \<Rightarrow> string option" where
  "trailingSpace s = find (\<lambda>w. HasSuffix s w) spaceRunes"

lemma spaceRunes_nonempty: "w \<in> set spaceRunes \<Longrightarrow> w \<noteq> []"
  by (auto simp: spaceRunes_def)

lemma leadingSpace_Some: "leadingSpace s = Some w \<Longrightarrow> w \<noteq> [] \<and> HasPrefix s w"
  unfolding leadingSpace_def
  by (auto simp: find_Some_iff spaceRunes_nonempty)

lemma trailingSpace_Some: "trailingSpace s = Some w \<Longrightarrow> w \<noteq> [] \<and> HasSuffix s w"
  unfolding trailingSpace_def
  by (auto simp: find_Some_iff spaceRunes_nonempty)

function TrimLeftSpace :: "string \<Rightarrow> string" where
  "TrimLeftSpace s =
     (case leadingSpace s of
        None \<Rightarrow> s
      | Some w \<Rightarrow> TrimLeftSpace (drop (length w) s))"
  by pat_completeness auto
termination
proof (relation "measure length")
  show "wf (measure length)" by simp
next
  fix s w :: string
  assume "leadingSpace s = Some w"
  then have "w \<noteq> []" and "HasPrefix s w"
    using leadingSpace_Some by auto
  then show "(drop (length w) s, s) \<in> measure length"
    by (cases s) (auto simp: HasPrefix_def)
qed

function TrimRightSpace :: "string \<Rightarrow> string" where
  "TrimRightSpace s =
     (case trailingSpace s of
        None \<Rightarrow> s
      | Some w \<Rightarrow> TrimRightSpace (take (length s - length w) s))"
  by pat_completeness auto
termination
proof (relation "measure length")
  show "wf (measure length)" by simp
next
  fix s w :: string
  assume "trailingSpace s = Some w"
  then have "w \<noteq> []" and "HasSuffix s w"
    using trailingSpace_Some by auto
  then show "(take (length s - length w) s, s) \<in> measure length"
    by (cases s) (auto simp: HasSuffix_def)
qed

declare TrimLeftSpace.simps [simp del] TrimRightSpace.simps [simp del]

definition TrimSpace :: "string \<Rightarrow> string" where
  "TrimSpace s = TrimRightSpace (TrimLeftSpace s)"

subsection \<open>Packages os and path/filepath\<close>

text \<open>
  \<open>os.Expand(s, mapping)\<close> with its helpers \<open>isShellSpecialVar\<close>, \<open>isAlphaNum\<close> and
  \<open>getShellName\<close>. \<open>getShellName\<close> reads the name that follows a \<open>$\<close> and returns it
  with the number of bytes it consumed; \<open>Expand\<close> calls it on a non-empty string only.
\<close>

definition isShellSpecialVar :: "char \<Rightarrow> bool" where
  "isShellSpecialVar c = (c \<in> set ''*#$@!?-0123456789'')"

definition isAlphaNum :: "char \<Rightarrow> bool" where
  "isAlphaNum c =
     (let n = (of_char c :: nat)
      in c = CHR ''_'' \<or> 48 \<le> n \<and> n \<le> 57 \<or> 97 \<le> n \<and> n \<le> 122 \<or> 65 \<le> n \<and> n \<le> 90)"

text \<open>The scan for the closing brace, on the bytes after the opening one.\<close>

definition scanBrace :: "string \<Rightarrow> string \<times> nat" where
  "scanBrace rest =
     (case IndexAny rest ''}'' of
        Some i \<Rightarrow> if i = 0 then ([], 2) else (take i rest, i + 2)
      | None \<Rightarrow> ([], 1))"

fun getShellName :: "string \<Rightarrow> string \<times> nat" where
  "getShellName [] = ([], 0)"
| "getShellName (c # rest) =
     (if c = CHR ''{'' then
        (case rest of
           c1 # c2 # _ \<Rightarrow>
             if isShellSpecialVar c1 \<and> c2 = CHR ''}'' then ([c1], 3) else scanBrace rest
         | _ \<Rightarrow> scanBrace rest)
      else if isShellSpecialVar c then ([c], 1)
      else (let name = takeWhile isAlphaNum (c # rest) in (name, length name)))"

fun Expand :: "string \<Rightarrow> (string \<Rightarrow> string) \<Rightarrow> string" where
  "Expand [] mapping = []"
| "Expand (c # rest) mapping =
     (if c = CHR ''$'' \<and> rest \<noteq> [] then
        (case getShellName rest of
           (name, w) \<Rightarrow>
             (if name = [] \<and> 0 < w then []
              else if name = [] then [c]
              else mapping name) @ Expand (drop w rest) mapping)
      else c # Expand rest mapping)"

text \<open>\<open>filepath.Base\<close> on a system whose separator is \<open>/\<close> and that has no volume names.\<close>

definition Base :: "string \<Rightarrow> string" where
  "Base path =
     (if path = [] then ''.''
      else (let p = rev (dropWhile (\<lambda>c. c = CHR ''/'') (rev path));
                e = rev (takeWhile (\<lambda>c. c \<noteq> CHR ''/'') (rev p))
            in if e = [] then ''/'' else e))"

subsection \<open>Errors\<close>

text \<open>
  Go's \<open>error\<close> values, as far as the package meets them: a system call's error number,
  a plain message (\<open>errors.New\<close>, \<open>fmt.Errorf\<close> without \<open>%w\<close>), the \<open>*fs.PathError\<close>
  that \<open>os.Open\<close> and a read return, the wrapper that \<open>fmt.Errorf\<close> builds for \<open>%w\<close>,
  and the aggregate of \<open>errors.Join\<close>. A \<open>nil\<close> error is \<open>None\<close> of \<open>error option\<close>.
\<close>

datatype errno = ENOENT | EACCES | EISDIR | ENOTDIR | EIO

datatype error =
    Errno errno
  | ErrorString string
  | PathError string string error
  | WrapError string error
  | JoinError "error list"

fun errnoText :: "errno \<Rightarrow> string" where
  "errnoText ENOENT = ''no such file or directory''"
| "errnoText EACCES = ''permission denied''"
| "errnoText EISDIR = ''is a directory''"
| "errnoText ENOTDIR = ''not a directory''"
| "errnoText EIO = ''input/output error''"

text \<open>The method \<open>Error()\<close>: the message of an error.\<close>

primrec Error :: "error \<Rightarrow> string" where
  "Error (Errno e) = errnoText e"
| "Error (ErrorString s) = s"
| "Error (PathError op path e) = op @ '' '' @ path @ '': '' @ Error e"
| "Error (WrapError msg e) = msg"
| "Error (JoinError es) = Join (map Error es) [CHR 0x0A]"

text \<open>\<open>fmt.Errorf(prefix + "%w", err)\<close>: the message is formatted once, the cause kept.\<close>

definition Errorf_w :: "string \<Rightarrow> error \<Rightarrow> error" where
  "Errorf_w prefix e = WrapError (prefix @ Error e) e"


text \<open>
  \<open>errors.Is(err, os.ErrNotExist)\<close>: some error of the chain is the error number
  \<open>ENOENT\<close>.
\<close>

primrec IsNotExist :: "error \<Rightarrow> bool" where
  "IsNotExist (Errno e) = (e = ENOENT)"
| "IsNotExist (ErrorString s) = False"
| "IsNotExist (PathError op path e) = IsNotExist e"
| "IsNotExist (WrapError msg e) = IsNotExist e"
| "IsNotExist (JoinError es) = list_ex id (map IsNotExist es)"

text \<open>\<open>errors.Join\<close>: the non-nil errors, or \<open>nil\<close> when there is none.\<close>

definition errors_Join :: "error option list \<Rightarrow> error option" where
  "errors_Join errs =
     (let es = List.map_filter id errs
      in if es = [] then None else Some (JoinError es))"

subsection \<open>Package flag\<close>

text \<open>
  A registered flag has a name and a value. \<open>flag.Value\<close> is an interface, and what a
  flag holds is a reference to a variable of the program (\<open>flag.String\<close> allocates
  one, \<open>flag.StringVar\<close> and \<open>flag.Var\<close> are given one): \<open>'p\<close> is the type of the
  references and \<open>'h\<close> the memory of the program. Two flags may hold the same
  reference. The method \<open>Set\<close> of all the implementations in use is one function from
  the reference, the argument and the memory to the memory after the call and the error
  (a setter may write anywhere, and may store something and fail as well).
\<close>

record 'p Flag =
  Name :: string
  Value :: 'p

type_synonym ('p, 'h) setter = "'p \<Rightarrow> string \<Rightarrow> 'h \<Rightarrow> 'h \<times> error option"

type_synonym call = "string \<times> string \<times> error option"

datatype ErrorHandling = ContinueOnError | ExitOnError | PanicOnError

text \<open>
  The flag set: its name, the registered flags in the order in which \<open>VisitAll\<close> visits
  them, the names of the flags that have been set (what \<open>Visit\<close> reports), the
  error-handling policy, what has been written to its output, and the \<open>Usage\<close>
  callback, if any, as a function on the output.
\<close>

record 'p FlagSet =
  fsName :: string
  formal :: "'p Flag list"
  actual :: "string list"
  errorHandling :: ErrorHandling
  out :: "string list"
  usage :: "(string list \<Rightarrow> string list) option"

definition Visit :: "'p FlagSet \<Rightarrow> 'p Flag list" where
  "Visit fl = filter (\<lambda>f. Name f \<in> set (actual fl)) (formal fl)"

text \<open>
  \<open>VisitAll\<close> with a callback that has a state: the variables that the closure
  captures, and the memory that the setters write to.
\<close>

primrec VisitAll :: "('p Flag \<Rightarrow> 's \<Rightarrow> 's) \<Rightarrow> 'p Flag list \<Rightarrow> 's \<Rightarrow> 's" where
  "VisitAll fn [] st = st"
| "VisitAll fn (f # fs) st = VisitAll fn fs (fn f st)"

subsection \<open>Package flagconf\<close>

text \<open>How a call ends: it returns, or \<open>mimicFlagSetError\<close> exits or panics.\<close>

datatype status = Returns | Exits nat | Panics error

text \<open>
  The result of \<open>ParseEnvSet\<close> and \<open>ParseConfigSet\<close>: the flag set and the memory after
  the call, the value of the named result \<open>err\<close> when the function ends (what the caller
  receives when the call returns), how the call ends, and the calls of \<open>f.Value.Set\<close>
  made, in order, each with the flag's name, the argument and the error it returned.
\<close>

record ('p, 'h) result =
  rFlagSet :: "'p FlagSet"
  rMemory :: 'h
  rErr :: "error option"
  rStatus :: status
  rCalls :: "call list"

text \<open>
  The state of the visitor closures: the variable \<open>flagErrs\<close>, the calls made, and the
  memory.
\<close>

record 'h pass =
  flagErrs :: "error list"
  calls :: "call list"
  memory :: 'h

definition mimicFlagSetError :: "'p FlagSet \<Rightarrow> error option \<Rightarrow> 'p FlagSet \<times> status" where
  "mimicFlagSetError fl err =
     (case err of
        None \<Rightarrow> (fl, Returns)
      | Some e \<Rightarrow>
          (let fl1 = fl\<lparr>out := out fl @ [Error e @ [CHR 0x0A]]\<rparr>;
               fl2 = (case usage fl1 of
                        None \<Rightarrow> fl1
                      | Some u \<Rightarrow> fl1\<lparr>out := u (out fl1)\<rparr>)
           in case errorHandling fl2 of
                ExitOnError \<Rightarrow> (fl2, Exits 2)
              | PanicOnError \<Rightarrow> (fl2, Panics e)
              | ContinueOnError \<Rightarrow> (fl2, Returns)))"

text \<open>
  The end of a function whose deferred call is \<open>mimicFlagSetError(fl, err)\<close>: the
  deferred call runs on the named result, then the function returns it.
\<close>

definition deferMimic :: "'p FlagSet \<Rightarrow> 'h \<Rightarrow> call list \<Rightarrow> error option \<Rightarrow> ('p, 'h) result" where
  "deferMimic fl h cs err =
     (case mimicFlagSetError fl err of
        (fl', st) \<Rightarrow> \<lparr>rFlagSet = fl', rMemory = h, rErr = err, rStatus = st, rCalls = cs\<rparr>)"

definition getSetFlags :: "'p FlagSet \<Rightarrow> string set" where
  "getSetFlags fl = foldl (\<lambda>m f. insert (Name f) m) {} (Visit fl)"

text \<open>A Go map read: the zero value for a missing key.\<close>

definition envAt :: "(string \<rightharpoonup> string) \<Rightarrow> string \<Rightarrow> string" where
  "envAt envMap k = (case envMap k of None \<Rightarrow> [] | Some v \<Rightarrow> v)"

definition configAt :: "(string \<rightharpoonup> string list) \<Rightarrow> string \<Rightarrow> string list" where
  "configAt config k = (case config k of None \<Rightarrow> [] | Some vs \<Rightarrow> vs)"

definition genEnvMap :: "string list \<Rightarrow> (string \<rightharpoonup> string)" where
  "genEnvMap env =
     foldl (\<lambda>envMap en. case Cut en ''='' of
                           (k, v, ok) \<Rightarrow> if ok then envMap(k \<mapsto> v) else envMap)
           Map.empty env"

definition envKeyForFlag :: "(int \<Rightarrow> int) \<Rightarrow> string \<Rightarrow> string \<Rightarrow> string" where
  "envKeyForFlag upperCase prefix name =
     (let name1 = ReplaceAll name ''-'' ''_'';
          name2 = ToUpper upperCase name1
      in if prefix = [] then name2
         else (let prefix1 = ReplaceAll prefix ''-'' ''_'';
                   prefix2 = ToUpper upperCase prefix1
               in prefix2 @ ''_'' @ name2))"

definition splitEscape :: "string \<Rightarrow> string \<Rightarrow> string \<Rightarrow> string list" where
  "splitEscape str sep esc =
     (if str = [] then []
      else (let str1 = ReplaceAll str (esc @ sep) [CHR 0x00];
                tokens = Split str1 sep
            in map (\<lambda>token. ReplaceAll token [CHR 0x00] sep) tokens))"

text \<open>The default of the package variable \<open>ReadEnvPrefix\<close>.\<close>

definition ReadEnvPrefix :: "'p FlagSet \<Rightarrow> string" where
  "ReadEnvPrefix fl = Base (fsName fl)"

text \<open>
  The loop over the values of one flag, in both visitors: expand the value, call the
  flag's setter, keep the error if there is one, go on with the next value.
\<close>

primrec rangeSet :: "('p, 'h) setter \<Rightarrow> (string \<Rightarrow> string) \<Rightarrow> string list \<Rightarrow> 'p Flag \<Rightarrow> 'h pass \<Rightarrow> 'h pass" where
  "rangeSet vSet expand [] f st = st"
| "rangeSet vSet expand (v # vs) f st =
     (let v' = expand v
      in case vSet (Value f) v' (memory st) of
           (h, err) \<Rightarrow>
             rangeSet vSet expand vs f
               (st\<lparr>flagErrs := flagErrs st @ (case err of None \<Rightarrow> [] | Some e \<Rightarrow> [e]),
                   calls := calls st @ [(Name f, v', err)],
                   memory := h\<rparr>))"

text \<open>
  \<open>ParseEnvSet\<close>, run in the memory \<open>h\<close>. The package variable \<open>ReadEnvPrefix\<close>, which
  a program may replace, is the parameter \<open>readEnvPrefix\<close>.
\<close>

definition ParseEnvSet :: "('p, 'h) setter \<Rightarrow> (int \<Rightarrow> int) \<Rightarrow> ('p FlagSet \<Rightarrow> string) \<Rightarrow> 'p FlagSet \<Rightarrow> string list \<Rightarrow> 'h \<Rightarrow> ('p, 'h) result" where
  "ParseEnvSet vSet upperCase readEnvPrefix fl env h =
     (let prefix = readEnvPrefix fl;
          envMap = genEnvMap env;
          expand = (\<lambda>v. Expand v (\<lambda>k. envAt envMap k));
          setFlags = getSetFlags fl;
          st = VisitAll
                 (\<lambda>f st. if Name f \<in> setFlags then st
                          else (let key = envKeyForFlag upperCase prefix (Name f)
                                in rangeSet vSet expand
                                     (splitEscape (envAt envMap key) '','' [CHR 0x5C]) f st))
                 (formal fl) \<lparr>flagErrs = [], calls = [], memory = h\<rparr>
      in deferMimic fl (memory st) (calls st) (errors_Join (map Some (flagErrs st))))"

text \<open>
  An opened file, as \<open>bufio.Scanner\<close> presents it: the lines that \<open>sc.Scan\<close> yields
  and the error that \<open>sc.Err\<close> reports after the last one. The file system is the
  function \<open>osOpen\<close> from a path to what \<open>os.Open\<close> returns for it.
\<close>

record File =
  scanned :: "string list"
  scanErr :: "error option"

text \<open>
  The body of the scanning loop on one line: \<open>None\<close> where the loop continues without
  an entry, else the key and the value that are appended to the table.
\<close>

definition configLine :: "string \<Rightarrow> (string \<times> string) option" where
  "configLine text =
     (let line = TrimSpace text
      in if line = [] \<or> HasPrefix line ''#'' then None
         else (case IndexAny line [CHR 0x09, CHR 0x20] of
                 None \<Rightarrow> Some (line, ''true'')
               | Some idx \<Rightarrow> Some (take idx line, TrimSpace (drop idx line))))"

definition scanConfig :: "string list \<Rightarrow> (string \<rightharpoonup> string list)" where
  "scanConfig ls =
     foldl (\<lambda>config text. case configLine text of
                             None \<Rightarrow> config
                           | Some (k, v) \<Rightarrow> config(k \<mapsto> configAt config k @ [v]))
           Map.empty ls"

text \<open>\<open>ParseConfigSet\<close>, run in the memory \<open>h\<close>.\<close>

definition ParseConfigSet :: "('p, 'h) setter \<Rightarrow> (string \<Rightarrow> error + File) \<Rightarrow> 'p FlagSet \<Rightarrow> string list \<Rightarrow> string \<Rightarrow> 'h \<Rightarrow> ('p, 'h) result" where
  "ParseConfigSet vSet osOpen fl env path h =
     (if path = []
      then \<lparr>rFlagSet = fl, rMemory = h, rErr = None, rStatus = Returns, rCalls = []\<rparr>
      else
        (let envMap = genEnvMap env;
             expand = (\<lambda>v. Expand v (\<lambda>k. envAt envMap k));
             path1 = expand path
         in case osOpen path1 of
              Inl err \<Rightarrow>
                if IsNotExist err then deferMimic fl h [] None
                else deferMimic fl h [] (Some (Errorf_w ''open config file: '' err))
            | Inr fi \<Rightarrow>
                (let config = scanConfig (scanned fi)
                 in case scanErr fi of
                      Some err \<Rightarrow> deferMimic fl h [] (Some (Errorf_w ''scan config: '' err))
                    | None \<Rightarrow>
                        (let setFlags = getSetFlags fl;
                             st = VisitAll
                                    (\<lambda>f st. if Name f \<in> setFlags then st
                                             else rangeSet vSet expand (configAt config (Name f)) f st)
                                    (formal fl) \<lparr>flagErrs = [], calls = [], memory = h\<rparr>
                         in deferMimic fl (memory st) (calls st)
                              (errors_Join (map Some (flagErrs st)))))))"

subsection \<open>The earlier revision of the package\<close>

text \<open>
  The file \<open>flagconf.go\<close> of the source tree holds an earlier revision of the package:
  no expansion, no \<open>ReadEnvPrefix\<close>, and two functions that differ from the ones
  embedded above in what C6, C7 and C9 are about. Its \<open>envKeyForFlag\<close> joins the prefix
  and the name whether or not the prefix is empty; the body of its scanning loop cuts
  the line at the first space, passes over a line without one, and stops with the error
  \<open>unknown config option\<close> at a key that names no flag.
\<close>

definition envKeyForFlag_earlier :: "(int \<Rightarrow> int) \<Rightarrow> string \<Rightarrow> string \<Rightarrow> string" where
  "envKeyForFlag_earlier upperCase prefix name =
     (let prefix1 = ReplaceAll prefix ''-'' ''_'';
          name1 = ReplaceAll name ''-'' ''_'';
          k = Join [prefix1, name1] ''_''
      in ToUpper upperCase k)"

datatype earlierLine = Continue | UnknownOption string | Append string string

definition configLine_earlier :: "string set \<Rightarrow> string \<Rightarrow> earlierLine" where
  "configLine_earlier allFlags text =
     (case Cut (TrimSpace text) '' '' of
        (k, v, ok) \<Rightarrow>
          if \<not> ok then Continue
          else if HasPrefix k ''#'' then Continue
          else if k \<notin> allFlags then UnknownOption k
          else if TrimSpace v \<noteq> [] then Append k (TrimSpace v)
          else Continue)"

subsection \<open>The test program\<close>

text \<open>
  The variables of the test program, named by strings, and what the memory holds for
  them: a string (the value of \<open>flag.String\<close>, whose setter stores its argument), the
  test's own \<open>flagArray\<close>, whose setter appends, and \<open>willErr\<close>, whose setter always
  fails.
\<close>

datatype testValue = StringValue string | FlagArray "string list" | WillErr

definition testSet :: "(string, string \<Rightarrow> testValue) setter" where
  "testSet p v h =
     (case h p of
        StringValue s \<Rightarrow> (h(p := StringValue v), None)
      | FlagArray fa \<Rightarrow> (h(p := FlagArray (fa @ [v])), None)
      | WillErr \<Rightarrow> (h, Some (ErrorString ''invalid option for will-err'')))"

text \<open>
  The memory of the test program before any flag is set: the variable \<open>fa\<close> is an empty
  \<open>flagArray\<close>, \<open>we\<close> a \<open>willErr\<close>, and the others are empty strings.
\<close>

definition testMemory :: "string \<Rightarrow> testValue" where
  "testMemory p =
     (if p = ''fa'' then FlagArray [] else if p = ''we'' then WillErr else StringValue [])"

text \<open>The flag set of the test program before any flag is set, with the given policy.\<close>

definition testFlags :: "ErrorHandling \<Rightarrow> string FlagSet" where
  "testFlags eh =
     \<lparr>fsName = ''test'',
      formal = [\<lparr>Name = ''arr'', Value = ''fa''\<rparr>,
                \<lparr>Name = ''config-path'', Value = ''conf''\<rparr>,
                \<lparr>Name = ''str'', Value = ''str''\<rparr>,
                \<lparr>Name = ''will-err'', Value = ''we''\<rparr>],
      actual = [],
      errorHandling = eh,
      out = [],
      usage = None\<rparr>"

text \<open>
  The files of the test script, as the scanner presents them: \<open>conf\<close> and
  \<open>conf-unknown-option\<close>; the directory \<open>some-dir\<close>, which opens and fails at the first
  read; \<open>conf-no-perm\<close>, which may not be read; no other path exists.
\<close>

definition testFS :: "string \<Rightarrow> error + File" where
  "testFS p =
     (if p = ''conf'' then
        Inr \<lparr>scanned = [''str the str'', ''arr value 1'', ''# tabs are ok'',
                         ''arr'' @ [CHR 0x09] @ ''value 2'', ''# ignore comments'',
                         ''# and flags with no value'', ''uh'', []],
             scanErr = None\<rparr>
      else if p = ''conf-unknown-option'' then
        Inr \<lparr>scanned = [''unknown-option hello'', []], scanErr = None\<rparr>
      else if p = ''some-dir'' then
        Inr \<lparr>scanned = [], scanErr = Some (PathError ''read'' ''some-dir'' (Errno EISDIR))\<rparr>
      else if p = ''conf-no-perm'' then
        Inl (PathError ''open'' ''conf-no-perm'' (Errno EACCES))
      else Inl (PathError ''open'' p (Errno ENOENT)))"





text \<open>A config file in the home directory, with references in its values.\<close>

definition homeFS :: "string \<Rightarrow> error + File" where
  "homeFS p =
     (if p = ''/x/conf'' then
        Inr \<lparr>scanned = [''str $HOME/dir'', ''arr ${HOME}/a'', ''arr $MISSING.b''], scanErr = None\<rparr>
      else Inl (PathError ''open'' p (Errno ENOENT)))"




text \<open>
  The rows of the case table for U+0080 to U+00FF: the letters U+00E0 to U+00FE but
  the division sign are 32 above their capitals, and U+00FF and U+00B5 have capitals
  outside this range. It serves where a flag name is evaluated.
\<close>

definition latin1UpperCase :: "int \<Rightarrow> int" where
  "latin1UpperCase r =
     (if (0xE0 \<le> r \<and> r \<le> 0xF6) \<or> (0xF8 \<le> r \<and> r \<le> 0xFE) then r - 32
      else if r = 0xFF then 0x178
      else if r = 0xB5 then 0x39C
      else r)"

section \<open>Notions for the properties\<close>

text \<open>
  The spec's words for one component of the key: every \<open>-\<close> replaced by \<open>_\<close>, and
  uppercased.
\<close>

definition upperSnake :: "(int \<Rightarrow> int) \<Rightarrow> string \<Rightarrow> string" where
  "upperSnake upperCase s =
     ToUpper upperCase (map (\<lambda>c. if c = CHR ''-'' then CHR ''_'' else c) s)"

text \<open>
  Names for what the two visitors have in common. A call's name and argument, and its
  returned error; the calls that are due in a pass: for every flag that is not set, in
  visiting order, one call for each of its values, expanded; the same calls with the
  reference that the setter receives in place of the name, and their effect on the
  memory, one after the other, whatever error a call returns; the visitor itself; and
  the expansion and the values that \<open>ParseEnvSet\<close> and \<open>ParseConfigSet\<close> pass to it.
\<close>

definition callOf :: "call \<Rightarrow> string \<times> string" where
  "callOf c = (fst c, fst (snd c))"


definition dueCalls :: "string set \<Rightarrow> (string \<Rightarrow> string) \<Rightarrow> (string \<Rightarrow> string list) \<Rightarrow> 'p Flag list \<Rightarrow> (string \<times> string) list" where
  "dueCalls S expand vals fs =
     concat (map (\<lambda>f. if Name f \<in> S then [] else map (\<lambda>v. (Name f, expand v)) (vals (Name f))) fs)"



definition visitor :: "string set \<Rightarrow> ('p, 'h) setter \<Rightarrow> (string \<Rightarrow> string) \<Rightarrow> (string \<Rightarrow> string list) \<Rightarrow> 'p Flag \<Rightarrow> 'h pass \<Rightarrow> 'h pass" where
  "visitor S vSet expand vals f st =
     (if Name f \<in> S then st else rangeSet vSet expand (vals (Name f)) f st)"

definition envExpand :: "string list \<Rightarrow> string \<Rightarrow> string" where
  "envExpand env v = Expand v (\<lambda>k. envAt (genEnvMap env) k)"

definition envValues :: "(int \<Rightarrow> int) \<Rightarrow> string \<Rightarrow> string list \<Rightarrow> string \<Rightarrow> string list" where
  "envValues upperCase prefix env n =
     splitEscape (envAt (genEnvMap env) (envKeyForFlag upperCase prefix n)) '','' [CHR 0x5C]"

definition configValues :: "File \<Rightarrow> string \<Rightarrow> string list" where
  "configValues fi n = configAt (scanConfig (scanned fi)) n"

text \<open>
  The pass itself, from the visit to the deferred report: what \<open>ParseEnvSet\<close> is, and
  what \<open>ParseConfigSet\<close> is once the file has been opened and scanned.
\<close>

definition runPass :: "('p, 'h) setter \<Rightarrow> (string \<Rightarrow> string) \<Rightarrow> (string \<Rightarrow> string list) \<Rightarrow> 'p FlagSet \<Rightarrow> 'h \<Rightarrow> ('p, 'h) result" where
  "runPass vSet expand vals fl h =
     (let st = VisitAll (visitor (getSetFlags fl) vSet expand vals)
                 (formal fl) \<lparr>flagErrs = [], calls = [], memory = h\<rparr>
      in deferMimic fl (memory st) (calls st) (errors_Join (map Some (flagErrs st))))"

text \<open>
  The spec's words for the splitter on \<open>,\<close> with the escape \<open>\\<close>, byte by byte: an
  escape marker immediately before a delimiter puts the delimiter into the current
  token, any other delimiter ends the current token, and every other byte (an escape
  marker as well) goes into the current token as it is.
\<close>

fun consToken :: "char \<Rightarrow> string list \<Rightarrow> string list" where
  "consToken c [] = [[c]]"
| "consToken c (t # ts) = (c # t) # ts"

fun splitUnescaped :: "string \<Rightarrow> string list" where
  "splitUnescaped [] = [[]]"
| "splitUnescaped [c] = (if c = CHR '','' then [[], []] else [[c]])"
| "splitUnescaped (c # d # cs) =
     (if c = CHR 0x5C \<and> d = CHR '','' then consToken (CHR '','') (splitUnescaped cs)
      else if c = CHR '','' then [] # splitUnescaped (d # cs)
      else consToken c (splitUnescaped (d # cs)))"

text \<open>The step of the loop in \<open>genEnvMap\<close>.\<close>

definition envEntry :: "(string \<rightharpoonup> string) \<Rightarrow> string \<Rightarrow> (string \<rightharpoonup> string)" where
  "envEntry envMap en =
     (case Cut en ''='' of (k, v, ok) \<Rightarrow> if ok then envMap(k \<mapsto> v) else envMap)"

text \<open>The step of the scanning loop on the table.\<close>

definition configEntry :: "(string \<rightharpoonup> string list) \<Rightarrow> string \<Rightarrow> (string \<rightharpoonup> string list)" where
  "configEntry config text =
     (case configLine text of
        None \<Rightarrow> config
      | Some (k, v) \<Rightarrow> config(k \<mapsto> configAt config k @ [v]))"

text \<open>\<open>strings.Contains\<close>.\<close>

definition Contains :: "string \<Rightarrow> string \<Rightarrow> bool" where
  "Contains s substr = (Index s substr \<noteq> None)"

text \<open>White space: a sequence of space runes.\<close>

definition isSpaces :: "string \<Rightarrow> bool" where
  "isSpaces g = (\<exists>ws. set ws \<subseteq> set spaceRunes \<and> g = concat ws)"

text \<open>
  The spec's words for the expander: a string is a sequence of literal text and
  references \<open>${NAME}\<close> and \<open>$NAME\<close>; expanding it replaces every reference by the value
  that the mapping gives for its name and leaves the rest, and what it has put in is
  not read again. For the strings that are more than text and such references, the
  sequence has four more kinds of segment, which are what \<open>os.Expand\<close> makes of a \<open>$\<close>
  elsewhere: \<open>$\<close> with one of the shell's special characters (a reference to the name
  of that one character), a \<open>$\<close> that nothing follows which could begin a name (it is
  kept), \<open>${}\<close> (it is dropped), and \<open>${\<close> with no closing brace after it (it is
  dropped).
\<close>

datatype segment = Lit string | Braced string | Bare string | Special char | Dollar
  | EmptyBraces | OpenBrace

fun render :: "segment \<Rightarrow> string" where
  "render (Lit t) = t"
| "render (Braced n) = ''${'' @ n @ ''}''"
| "render (Bare n) = ''$'' @ n"
| "render (Special c) = [CHR ''$'', c]"
| "render Dollar = ''$''"
| "render EmptyBraces = ''${}''"
| "render OpenBrace = ''${''"

fun substitute :: "(string \<Rightarrow> string) \<Rightarrow> segment \<Rightarrow> string" where
  "substitute mapping (Lit t) = t"
| "substitute mapping (Braced n) = mapping n"
| "substitute mapping (Bare n) = mapping n"
| "substitute mapping (Special c) = mapping [c]"
| "substitute mapping Dollar = ''$''"
| "substitute mapping EmptyBraces = []"
| "substitute mapping OpenBrace = []"

text \<open>
  A name that can stand without braces: letters, digits and underscores, not beginning
  with a digit (\<open>$1\<close> is a reference of its own). A byte that can begin a name after
  \<open>$\<close>.
\<close>

definition isName :: "string \<Rightarrow> bool" where
  "isName n = (n \<noteq> [] \<and> list_all isAlphaNum n \<and> \<not> isShellSpecialVar (hd n))"

definition startsName :: "char \<Rightarrow> bool" where
  "startsName c = (c = CHR ''{'' \<or> isShellSpecialVar c \<or> isAlphaNum c)"

text \<open>
  The sequences that are read as they are written: literal text has no \<open>$\<close>, a name in
  braces is not empty and has no closing brace, a name without braces is followed by
  something that cannot continue it, a kept \<open>$\<close> by something that cannot begin a name,
  and an unclosed \<open>${\<close> by no closing brace.
\<close>

fun wellFormed :: "segment list \<Rightarrow> bool" where
  "wellFormed [] = True"
| "wellFormed (Lit t # segs) = (CHR ''$'' \<notin> set t \<and> wellFormed segs)"
| "wellFormed (Braced n # segs) = (n \<noteq> [] \<and> CHR ''}'' \<notin> set n \<and> wellFormed segs)"
| "wellFormed (Bare n # segs) =
     (isName n
      \<and> (case concat (map render segs) of [] \<Rightarrow> True | c # _ \<Rightarrow> \<not> isAlphaNum c)
      \<and> wellFormed segs)"
| "wellFormed (Special c # segs) = (isShellSpecialVar c \<and> wellFormed segs)"
| "wellFormed (Dollar # segs) =
     ((case concat (map render segs) of [] \<Rightarrow> True | c # _ \<Rightarrow> \<not> startsName c)
      \<and> wellFormed segs)"
| "wellFormed (EmptyBraces # segs) = wellFormed segs"
| "wellFormed (OpenBrace # segs) =
     (CHR ''}'' \<notin> set (concat (map render segs)) \<and> wellFormed segs)"

section \<open>Properties\<close>

subsection \<open>Facts about the string functions\<close>

lemma ReplaceAll_Nil: "old \<noteq> [] \<Longrightarrow> ReplaceAll [] old new = []"
  by (simp add: ReplaceAll.simps)

lemma ReplaceAll_Cons:
  assumes "old \<noteq> []"
  shows "ReplaceAll (c # cs) old new =
           (if HasPrefix (c # cs) old then new @ ReplaceAll (drop (length old) (c # cs)) old new
            else c # ReplaceAll cs old new)"
proof (cases "HasPrefix (c # cs) old")
  case True
  then show ?thesis using assms
    by (subst ReplaceAll.simps) simp
next
  case False
  show ?thesis
  proof (cases "Index cs old")
    case None
    with False assms show ?thesis
      by (simp add: ReplaceAll.simps [of "c # cs"] ReplaceAll.simps [of cs])
  next
    case (Some j)
    with False assms show ?thesis
      by (simp add: ReplaceAll.simps [of "c # cs"] ReplaceAll.simps [of cs])
  qed
qed

lemma ReplaceAll_char:
  "ReplaceAll s [a] new = concat (map (\<lambda>c. if c = a then new else [c]) s)"
  by (induction s) (simp_all add: ReplaceAll_Nil ReplaceAll_Cons HasPrefix_def)

subsection \<open>The environment key\<close>

lemma ReplaceAll_dash:
  "ReplaceAll s ''-'' ''_'' = map (\<lambda>c. if c = CHR ''-'' then CHR ''_'' else c) s"
  by (induction s) (simp_all add: ReplaceAll_char)

lemma upperByte_id:
  "\<not> (97 \<le> (of_char c :: nat) \<and> (of_char c :: nat) \<le> 122) \<Longrightarrow> upperByte c = c"
  unfolding upperByte_def by (rule if_not_P)

lemma ToUpper_ascii:
  assumes "list_all (\<lambda>c. (of_char c :: nat) < 0x80) s"
  shows "ToUpper upperCase s = map upperByte s"
proof (cases "list_ex (\<lambda>c. 97 \<le> (of_char c :: nat) \<and> (of_char c :: nat) \<le> 122) s")
  case True
  with assms show ?thesis by (simp add: ToUpper_def)
next
  case False
  then have "\<forall>c \<in> set s. upperByte c = c"
    by (auto simp: list_ex_iff intro: upperByte_id)
  then have "map upperByte s = s"
    by (simp add: map_idI)
  with assms False show ?thesis by (simp add: ToUpper_def)
qed

lemma upperSnake_ascii:
  assumes "list_all (\<lambda>c. (of_char c :: nat) < 0x80) s"
  shows "upperSnake upperCase s
           = map (\<lambda>c. if c = CHR ''-'' then CHR ''_'' else upperByte c) s"
proof -
  let ?t = "map (\<lambda>c. if c = CHR ''-'' then CHR ''_'' else c) s"
  have "list_all (\<lambda>c. (of_char c :: nat) < 0x80) ?t"
    using assms by (auto simp: list_all_iff)
  then have "ToUpper upperCase ?t = map upperByte ?t"
    by (rule ToUpper_ascii)
  moreover have "upperByte (CHR ''_'') = CHR ''_''"
    by (simp add: upperByte_def)
  ultimately show ?thesis
    by (simp add: upperSnake_def)
qed

lemma envKeyForFlag_eq:
  "envKeyForFlag upperCase prefix name =
     (if prefix = [] then upperSnake upperCase name
      else upperSnake upperCase prefix @ ''_'' @ upperSnake upperCase name)"
  by (simp add: envKeyForFlag_def ReplaceAll_dash upperSnake_def)

lemma upperSnake_examples:
  "upperSnake upperCase ''my-app'' = ''MY_APP''"
  "upperSnake upperCase ''some-string'' = ''SOME_STRING''"
proof -
  have "list_all (\<lambda>c. (of_char c :: nat) < 0x80) ''my-app''"
    and "list_all (\<lambda>c. (of_char c :: nat) < 0x80) ''some-string''"
    by simp_all
  moreover have "map (\<lambda>c. if c = CHR ''-'' then CHR ''_'' else upperByte c) ''my-app'' = ''MY_APP''"
    and "map (\<lambda>c. if c = CHR ''-'' then CHR ''_'' else upperByte c) ''some-string'' = ''SOME_STRING''"
    by code_simp+
  ultimately show "upperSnake upperCase ''my-app'' = ''MY_APP''"
    and "upperSnake upperCase ''some-string'' = ''SOME_STRING''"
    by (simp_all only: upperSnake_ascii)
qed

lemma envKeyForFlag_my_app:
  "envKeyForFlag upperCase (ReadEnvPrefix (fl\<lparr>fsName := ''my-app''\<rparr>)) ''some-string''
     = ''MY_APP_SOME_STRING''"
proof -
  have "ReadEnvPrefix (fl\<lparr>fsName := ''my-app''\<rparr>) = ''my-app''"
    by (simp add: ReadEnvPrefix_def Base_def)
  then show ?thesis
    by (simp add: envKeyForFlag_eq upperSnake_examples)
qed

lemma envKeyForFlag_no_prefix: "envKeyForFlag upperCase [] ''some-string'' = ''SOME_STRING''"
  by (simp add: envKeyForFlag_eq upperSnake_examples)

lemma envKeyForFlag_latin1:
  "envKeyForFlag latin1UpperCase [] [CHR ''c'', CHR ''a'', CHR ''f'', CHR 0xC3, CHR 0xA9, CHR ''-'', CHR ''x'']
     = [CHR ''C'', CHR ''A'', CHR ''F'', CHR 0xC3, CHR 0x89, CHR ''_'', CHR ''X'']"
  "envKeyForFlag latin1UpperCase [] [CHR ''a'', CHR 0xFF, CHR ''-'', CHR ''b'']
     = [CHR ''A'', CHR 0xEF, CHR 0xBF, CHR 0xBD, CHR ''_'', CHR ''B'']"
  by code_simp+

text \<open>
  C6. For every case table, prefix and flag name the environment key is the prefix and
  the name, each with every \<open>-\<close> replaced by \<open>_\<close> and uppercased by
  \<open>strings.ToUpper\<close>, joined by one \<open>_\<close>; with an empty prefix it is the transformed
  name alone, with no leading underscore. On a string of ASCII bytes the transformation
  is the map of the bytes that takes \<open>-\<close> to \<open>_\<close> and \<open>a\<close>..\<open>z\<close> to \<open>A\<close>..\<open>Z\<close>. A flag
  set named \<open>my-app\<close> (the default prefix is the base name of the flag set's name) and
  the flag \<open>some-string\<close> give \<open>MY_APP_SOME_STRING\<close>, the empty prefix gives
  \<open>SOME_STRING\<close>. Outside ASCII the runes are uppercased, not the bytes: the name
  \<open>caf\<close>, U+00E9, \<open>-x\<close> gives \<open>CAF\<close>, U+00C9, \<open>_X\<close>, and a byte that is not UTF-8
  comes out as U+FFFD.
\<close>

theorem envKeyForFlag_upper_snake:
  "envKeyForFlag upperCase prefix name =
     (if prefix = [] then upperSnake upperCase name
      else upperSnake upperCase prefix @ ''_'' @ upperSnake upperCase name)
   \<and> (list_all (\<lambda>c. (of_char c :: nat) < 0x80) s \<longrightarrow>
        upperSnake upperCase s = map (\<lambda>c. if c = CHR ''-'' then CHR ''_'' else upperByte c) s)
   \<and> envKeyForFlag upperCase (ReadEnvPrefix (fl\<lparr>fsName := ''my-app''\<rparr>)) ''some-string''
       = ''MY_APP_SOME_STRING''
   \<and> envKeyForFlag upperCase [] ''some-string'' = ''SOME_STRING''
   \<and> envKeyForFlag latin1UpperCase []
         [CHR ''c'', CHR ''a'', CHR ''f'', CHR 0xC3, CHR 0xA9, CHR ''-'', CHR ''x'']
       = [CHR ''C'', CHR ''A'', CHR ''F'', CHR 0xC3, CHR 0x89, CHR ''_'', CHR ''X'']
   \<and> envKeyForFlag latin1UpperCase [] [CHR ''a'', CHR 0xFF, CHR ''-'', CHR ''b'']
       = [CHR ''A'', CHR 0xEF, CHR 0xBF, CHR 0xBD, CHR ''_'', CHR ''B'']"
proof (intro conjI impI)
  show "envKeyForFlag upperCase prefix name =
          (if prefix = [] then upperSnake upperCase name
           else upperSnake upperCase prefix @ ''_'' @ upperSnake upperCase name)"
    by (rule envKeyForFlag_eq)
  show "upperSnake upperCase s = map (\<lambda>c. if c = CHR ''-'' then CHR ''_'' else upperByte c) s"
    if "list_all (\<lambda>c. (of_char c :: nat) < 0x80) s"
    using that by (rule upperSnake_ascii)
  show "envKeyForFlag upperCase (ReadEnvPrefix (fl\<lparr>fsName := ''my-app''\<rparr>)) ''some-string''
          = ''MY_APP_SOME_STRING''"
    by (rule envKeyForFlag_my_app)
  show "envKeyForFlag upperCase [] ''some-string'' = ''SOME_STRING''"
    by (rule envKeyForFlag_no_prefix)
  show "envKeyForFlag latin1UpperCase []
          [CHR ''c'', CHR ''a'', CHR ''f'', CHR 0xC3, CHR 0xA9, CHR ''-'', CHR ''x'']
        = [CHR ''C'', CHR ''A'', CHR ''F'', CHR 0xC3, CHR 0x89, CHR ''_'', CHR ''X'']"
    by (rule envKeyForFlag_latin1(1))
  show "envKeyForFlag latin1UpperCase [] [CHR ''a'', CHR 0xFF, CHR ''-'', CHR ''b'']
        = [CHR ''A'', CHR 0xEF, CHR 0xBF, CHR 0xBD, CHR ''_'', CHR ''B'']"
    by (rule envKeyForFlag_latin1(2))
qed

theorem envKeyForFlag_upper_snake_witness:
  "envKeyForFlag latin1UpperCase ''a-b'' ''c-d'' = ''A_B_C_D''
   \<and> envKeyForFlag latin1UpperCase [] ''c-d'' = ''C_D''
   \<and> upperSnake latin1UpperCase ''c-d'' = ''C_D''
   \<and> envKeyForFlag latin1UpperCase
         (ReadEnvPrefix ((testFlags ContinueOnError)\<lparr>fsName := ''my-app''\<rparr>)) ''some-string''
       = ''MY_APP_SOME_STRING''"
proof -
  have "map (\<lambda>c. if c = CHR ''-'' then CHR ''_'' else upperByte c) ''a-b'' = ''A_B''"
    and "map (\<lambda>c. if c = CHR ''-'' then CHR ''_'' else upperByte c) ''c-d'' = ''C_D''"
    by code_simp+
  then show ?thesis
    using envKeyForFlag_upper_snake [of latin1UpperCase "''a-b''" "''c-d''" "''a-b''"
        "testFlags ContinueOnError"]
      envKeyForFlag_upper_snake [of latin1UpperCase "[]" "''c-d''" "''c-d''"
        "testFlags ContinueOnError"]
    by simp
qed

subsection \<open>The pass over the flags\<close>

lemma rangeSet_Cons:
  "rangeSet vSet expand (v # vs) f st =
     rangeSet vSet expand vs f
       (st\<lparr>flagErrs := flagErrs st @ (case snd (vSet (Value f) (expand v) (memory st)) of
                                          None \<Rightarrow> [] | Some e \<Rightarrow> [e]),
           calls := calls st @ [(Name f, expand v, snd (vSet (Value f) (expand v) (memory st)))],
           memory := fst (vSet (Value f) (expand v) (memory st))\<rparr>)"
  by (simp add: Let_def split: prod.splits)

lemma rangeSet_calls:
  "map callOf (calls (rangeSet vSet expand vs f st))
     = map callOf (calls st) @ map (\<lambda>v. (Name f, expand v)) vs"
  by (induction vs arbitrary: st)
    (simp_all add: rangeSet_Cons callOf_def del: rangeSet.simps(2))







lemma visitor_calls:
  "map callOf (calls (visitor S vSet expand vals f st))
     = map callOf (calls st)
       @ (if Name f \<in> S then [] else map (\<lambda>v. (Name f, expand v)) (vals (Name f)))"
  by (simp add: visitor_def rangeSet_calls)

lemma VisitAll_visitor_calls:
  "map callOf (calls (VisitAll (visitor S vSet expand vals) fs st))
     = map callOf (calls st) @ dueCalls S expand vals fs"
proof (induction fs arbitrary: st)
  case Nil
  show ?case by (simp add: dueCalls_def)
next
  case (Cons f fs)
  show ?case
    unfolding VisitAll.simps Cons.IH visitor_calls
    by (simp add: dueCalls_def)
qed







lemma deferMimic_simps [simp]:
  "rCalls (deferMimic fl h cs err) = cs"
  "rErr (deferMimic fl h cs err) = err"
  "rMemory (deferMimic fl h cs err) = h"
  "formal (rFlagSet (deferMimic fl h cs err)) = formal fl"
  "actual (rFlagSet (deferMimic fl h cs err)) = actual fl"
  "fsName (rFlagSet (deferMimic fl h cs err)) = fsName fl"
  "errorHandling (rFlagSet (deferMimic fl h cs err)) = errorHandling fl"
  "rStatus (deferMimic fl h cs err) =
     (case err of
        None \<Rightarrow> Returns
      | Some e \<Rightarrow> (case errorHandling fl of
                     ContinueOnError \<Rightarrow> Returns
                   | ExitOnError \<Rightarrow> Exits 2
                   | PanicOnError \<Rightarrow> Panics e))"
  by (simp_all add: deferMimic_def mimicFlagSetError_def Let_def
        split: option.splits ErrorHandling.splits prod.splits)

lemma deferMimic_None [simp]:
  "deferMimic fl h cs None
     = \<lparr>rFlagSet = fl, rMemory = h, rErr = None, rStatus = Returns, rCalls = cs\<rparr>"
  by (simp add: deferMimic_def mimicFlagSetError_def)

lemma envExpand_eq: "(\<lambda>v. Expand v (\<lambda>k. envAt (genEnvMap env) k)) = envExpand env"
  by (simp add: fun_eq_iff envExpand_def)

lemma Expand_envExpand: "Expand v (envAt (genEnvMap env)) = envExpand env v"
  by (simp add: envExpand_def)

lemma ParseEnvSet_runPass:
  "ParseEnvSet vSet upperCase readEnvPrefix fl env h
     = runPass vSet (envExpand env) (envValues upperCase (readEnvPrefix fl) env) fl h"
proof -
  have "(\<lambda>f st. if Name f \<in> getSetFlags fl then st
                else (let key = envKeyForFlag upperCase (readEnvPrefix fl) (Name f)
                      in rangeSet vSet (\<lambda>v. Expand v (\<lambda>k. envAt (genEnvMap env) k))
                           (splitEscape (envAt (genEnvMap env) key) '','' [CHR 0x5C]) f st))
        = visitor (getSetFlags fl) vSet (envExpand env)
            (envValues upperCase (readEnvPrefix fl) env)"
    by (intro ext) (simp add: visitor_def envExpand_eq envValues_def)
  then show ?thesis
    by (simp add: ParseEnvSet_def runPass_def Let_def)
qed

lemma ParseConfigSet_runPass:
  assumes "path \<noteq> []" and "osOpen (envExpand env path) = Inr fi" and "scanErr fi = None"
  shows "ParseConfigSet vSet osOpen fl env path h
           = runPass vSet (envExpand env) (configValues fi) fl h"
proof -
  have "(\<lambda>f st. if Name f \<in> getSetFlags fl then st
                else rangeSet vSet (\<lambda>v. Expand v (\<lambda>k. envAt (genEnvMap env) k))
                       (configAt (scanConfig (scanned fi)) (Name f)) f st)
        = visitor (getSetFlags fl) vSet (envExpand env) (configValues fi)"
    by (intro ext) (simp add: visitor_def envExpand_eq configValues_def)
  then show ?thesis
    using assms
    by (simp add: ParseConfigSet_def runPass_def Let_def envExpand_def)
qed



lemma getSetFlags_eq: "getSetFlags fl = Name ` set (Visit fl)"
proof -
  have "foldl (\<lambda>m f. insert (Name f) m) A xs = A \<union> Name ` set xs" for A and xs :: "'a Flag list"
    by (induction xs arbitrary: A) auto
  then show ?thesis by (simp add: getSetFlags_def)
qed

lemma getSetFlags_iff:
  "n \<in> getSetFlags fl \<longleftrightarrow> n \<in> set (actual fl) \<and> n \<in> Name ` set (formal fl)"
  by (auto simp: getSetFlags_eq Visit_def)









subsection \<open>Flags that are already set\<close>







subsection \<open>The whole pass, whatever the setters return\<close>



lemma runPass_calls:
  "map callOf (rCalls (runPass vSet expand vals fl h))
     = dueCalls (getSetFlags fl) expand vals (formal fl)"
  using VisitAll_visitor_calls [of "getSetFlags fl" vSet expand vals "formal fl"
          "\<lparr>flagErrs = [], calls = [], memory = h\<rparr>"]
  by (simp add: runPass_def Let_def)










subsection \<open>The list splitter\<close>

lemma Split_Nil: "sep \<noteq> [] \<Longrightarrow> Split [] sep = [[]]"
  by (simp add: Split.simps)

lemma Split_Cons:
  assumes "sep \<noteq> []"
  shows "Split (c # cs) sep =
           (if HasPrefix (c # cs) sep then [] # Split (drop (length sep) (c # cs)) sep
            else consToken c (Split cs sep))"
proof (cases "HasPrefix (c # cs) sep")
  case True
  then show ?thesis using assms
    by (subst Split.simps) simp
next
  case False
  show ?thesis
  proof (cases "Index cs sep")
    case None
    with False assms show ?thesis
      by (simp add: Split.simps [of "c # cs"] Split.simps [of cs])
  next
    case (Some j)
    with False assms show ?thesis
      by (simp add: Split.simps [of "c # cs"] Split.simps [of cs])
  qed
qed

lemma Split_not_Nil: "sep \<noteq> [] \<Longrightarrow> Split s sep \<noteq> []"
  by (subst Split.simps) (simp split: option.splits)

lemma consToken_eq:
  "ts \<noteq> [] \<Longrightarrow> consToken c ts = (c # hd ts) # tl ts"
  by (cases ts) simp_all

lemma map_consToken: "map (map g) (consToken c ts) = consToken (g c) (map (map g) ts)"
  by (cases ts) simp_all

lemma ReplaceAll_nul:
  "ReplaceAll token [CHR 0x00] '','' = map (\<lambda>c. if c = CHR 0x00 then CHR '','' else c) token"
  by (induction token) (simp_all add: ReplaceAll_char)

text \<open>The two replacements of \<open>splitEscape\<close> around the split.\<close>

lemma splitEscape_eq_splitUnescaped:
  "map (\<lambda>token. ReplaceAll token [CHR 0x00] '','')
     (Split (ReplaceAll str [CHR 0x5C, CHR '',''] [CHR 0x00]) '','')
   = map (map (\<lambda>c. if c = CHR 0x00 then CHR '','' else c)) (splitUnescaped str)"
proof (induction str rule: splitUnescaped.induct)
  case 1
  show ?case by (simp add: ReplaceAll_Nil Split_Nil ReplaceAll_nul)
next
  case (2 c)
  then show ?case
    by (simp add: ReplaceAll_Cons ReplaceAll_Nil Split_Cons Split_Nil HasPrefix_def ReplaceAll_nul)
next
  case (3 c d cs)
  let ?R = "\<lambda>s. ReplaceAll s [CHR 0x5C, CHR '',''] [CHR 0x00]"
  let ?g = "\<lambda>c. if c = CHR 0x00 then CHR '','' else c"
  have f: "(\<lambda>token. ReplaceAll token [CHR 0x00] '','') = map ?g"
    by (intro ext) (rule ReplaceAll_nul)
  show ?case
  proof (cases "c = CHR 0x5C \<and> d = CHR '',''")
    case True
    then have "?R (c # d # cs) = CHR 0x00 # ?R cs"
      by (simp add: ReplaceAll_Cons HasPrefix_def)
    then have "Split (?R (c # d # cs)) '','' = consToken (CHR 0x00) (Split (?R cs) '','')"
      by (simp add: Split_Cons HasPrefix_def)
    then have "map (map ?g) (Split (?R (c # d # cs)) '','')
                 = consToken (CHR '','') (map (map ?g) (Split (?R cs) '',''))"
      by (simp only: map_consToken) simp
    with True "3.IH"(1) show ?thesis
      unfolding f by (simp add: map_consToken)
  next
    case False
    note nesc = this
    show ?thesis
    proof (cases "c = CHR '',''")
      case True
      with nesc have "?R (c # d # cs) = c # ?R (d # cs)"
        by (simp add: ReplaceAll_Cons HasPrefix_def)
      with True have "Split (?R (c # d # cs)) '','' = [] # Split (?R (d # cs)) '',''"
        by (simp add: Split_Cons HasPrefix_def)
      with True nesc "3.IH"(2) show ?thesis
        unfolding f by simp
    next
      case False
      with nesc have "?R (c # d # cs) = c # ?R (d # cs)"
        by (auto simp: ReplaceAll_Cons HasPrefix_def)
      with False have "Split (?R (c # d # cs)) '','' = consToken c (Split (?R (d # cs)) '','')"
        by (simp add: Split_Cons HasPrefix_def)
      then have "map (map ?g) (Split (?R (c # d # cs)) '','')
                   = consToken (?g c) (map (map ?g) (Split (?R (d # cs)) '',''))"
        by (simp only: map_consToken)
      with False nesc "3.IH"(3) show ?thesis
        unfolding f by (auto simp: map_consToken)
    qed
  qed
qed

lemma map_nul_id:
  "CHR 0x00 \<notin> set t \<Longrightarrow> map (\<lambda>c. if c = CHR 0x00 then CHR '','' else c) t = t"
  by (induction t) auto

lemma map_no_nul:
  "\<forall>t \<in> set ts. CHR 0x00 \<notin> set t \<Longrightarrow>
   map (map (\<lambda>c. if c = CHR 0x00 then CHR '','' else c)) ts = ts"
  by (induction ts) (simp_all add: map_nul_id)

lemma consToken_bytes:
  "(\<Union>t \<in> set (consToken c ts). set t) = insert c (\<Union>t \<in> set ts. set t)"
  by (cases ts) auto

lemma splitUnescaped_bytes: "(\<Union>t \<in> set (splitUnescaped str). set t) \<subseteq> set str"
  by (induction str rule: splitUnescaped.induct) (auto simp: consToken_bytes, blast+)

lemma splitEscape_comma:
  "splitEscape str '','' [CHR 0x5C]
     = (if str = [] then []
        else map (map (\<lambda>c. if c = CHR 0x00 then CHR '','' else c)) (splitUnescaped str))"
  using splitEscape_eq_splitUnescaped [of str]
  by (simp add: splitEscape_def)

lemma splitEscape_no_nul:
  assumes "str \<noteq> []" and "CHR 0x00 \<notin> set str"
  shows "splitEscape str '','' [CHR 0x5C] = splitUnescaped str"
proof -
  have "\<forall>t \<in> set (splitUnescaped str). CHR 0x00 \<notin> set t"
    using assms(2) splitUnescaped_bytes [of str] by blast
  then show ?thesis
    using assms(1) by (simp add: splitEscape_comma map_no_nul)
qed

lemma dueCalls_no_values:
  "vals n = [] \<Longrightarrow> n \<notin> fst ` set (dueCalls S expand vals fs)"
  by (induction fs) (auto simp: dueCalls_def)

lemma ParseEnvSet_no_value_no_call:
  assumes "envAt (genEnvMap env) (envKeyForFlag upperCase (readEnvPrefix fl) n) = []"
    and "c \<in> set (rCalls (ParseEnvSet vSet upperCase readEnvPrefix fl env h))"
  shows "fst c \<noteq> n"
proof -
  have "envValues upperCase (readEnvPrefix fl) env n = []"
    using assms(1) by (simp add: envValues_def splitEscape_def)
  then have "n \<notin> fst ` set (dueCalls (getSetFlags fl) (envExpand env)
                               (envValues upperCase (readEnvPrefix fl) env) (formal fl))"
    by (rule dueCalls_no_values)
  then have "n \<notin> fst ` set (map callOf (rCalls (ParseEnvSet vSet upperCase readEnvPrefix fl env h)))"
    by (simp add: ParseEnvSet_runPass runPass_calls)
  then show ?thesis using assms(2) by (force simp: callOf_def)
qed

lemma splitEscape_example:
  "splitEscape (''a,b'' @ [CHR 0x5C] @ '',c,d'') '','' [CHR 0x5C] = [''a'', ''b,c'', ''d'']"
  by code_simp

text \<open>
  C5. Splitting \<open>a,b\,c,d\<close> on \<open>,\<close> with the escape \<open>\\<close> gives exactly the tokens
  \<open>a\<close>, \<open>b,c\<close> and \<open>d\<close>. The empty string gives no token at all. On every other
  string the function splits where the byte-by-byte splitter does: at the delimiters
  that no escape marker precedes; an escaped delimiter stays in its token without the
  marker, and every other escape marker stays where it is. The tokens are those of the
  byte-by-byte splitter, but that a byte 0 of the string, which the function uses as
  its placeholder, comes out as a delimiter in its token; on a string without the
  byte 0 the two splitters are equal. So a flag whose environment variable is absent or
  empty has no setter call in \<open>ParseEnvSet\<close>.
\<close>

theorem splitEscape_unescaped:
  "splitEscape (''a,b'' @ [CHR 0x5C] @ '',c,d'') '','' [CHR 0x5C] = [''a'', ''b,c'', ''d'']
   \<and> splitEscape [] sep esc = []
   \<and> splitEscape str '','' [CHR 0x5C]
       = (if str = [] then []
          else map (map (\<lambda>c. if c = CHR 0x00 then CHR '','' else c)) (splitUnescaped str))
   \<and> (str \<noteq> [] \<and> CHR 0x00 \<notin> set str \<longrightarrow>
        splitEscape str '','' [CHR 0x5C] = splitUnescaped str)
   \<and> (envAt (genEnvMap env) (envKeyForFlag upperCase (readEnvPrefix fl) n) = [] \<longrightarrow>
        (\<forall>c \<in> set (rCalls (ParseEnvSet vSet upperCase readEnvPrefix fl env h)). fst c \<noteq> n))"
proof (intro conjI impI ballI)
  show "splitEscape (''a,b'' @ [CHR 0x5C] @ '',c,d'') '','' [CHR 0x5C] = [''a'', ''b,c'', ''d'']"
    by (rule splitEscape_example)
  show "splitEscape [] sep esc = []"
    by (simp add: splitEscape_def)
  show "splitEscape str '','' [CHR 0x5C]
          = (if str = [] then []
             else map (map (\<lambda>c. if c = CHR 0x00 then CHR '','' else c)) (splitUnescaped str))"
    by (rule splitEscape_comma)
  show "splitEscape str '','' [CHR 0x5C] = splitUnescaped str"
    if "str \<noteq> [] \<and> CHR 0x00 \<notin> set str"
    using that by (simp add: splitEscape_no_nul)
  show "fst c \<noteq> n"
    if "envAt (genEnvMap env) (envKeyForFlag upperCase (readEnvPrefix fl) n) = []"
      and "c \<in> set (rCalls (ParseEnvSet vSet upperCase readEnvPrefix fl env h))" for c
    using that by (rule ParseEnvSet_no_value_no_call)
qed

theorem splitEscape_unescaped_witness:
  "splitEscape (''x'' @ [CHR 0x5C] @ ''y,z'' @ [CHR 0x5C, CHR 0x5C] @ '',w'') '','' [CHR 0x5C]
     = [''x'' @ [CHR 0x5C] @ ''y'', ''z'' @ [CHR 0x5C] @ '',w'']
   \<and> ''str'' \<notin> fst ` set (rCalls (ParseEnvSet testSet latin1UpperCase ReadEnvPrefix
                                     (testFlags ContinueOnError) [''TEST_STR='', ''TEST_ARR=a'']
                                     testMemory))"
proof -
  let ?s = "''x'' @ [CHR 0x5C] @ ''y,z'' @ [CHR 0x5C, CHR 0x5C] @ '',w''"
  let ?fl = "testFlags ContinueOnError"
  let ?env = "[''TEST_STR='', ''TEST_ARR=a'']"
  have u: "splitUnescaped ?s = [''x'' @ [CHR 0x5C] @ ''y'', ''z'' @ [CHR 0x5C] @ '',w'']"
    by simp
  have e: "envAt (genEnvMap ?env) (envKeyForFlag latin1UpperCase (ReadEnvPrefix ?fl) ''str'') = []"
    by code_simp
  show ?thesis
    using splitEscape_unescaped [where sep = "[]" and esc = "[]" and str = ?s and env = ?env
        and upperCase = latin1UpperCase and readEnvPrefix = ReadEnvPrefix and fl = ?fl
        and n = "''str''" and vSet = testSet and h = testMemory] u e
    by auto
qed

subsection \<open>The environment snapshot\<close>

lemma Index_char_None: "c \<notin> set s \<Longrightarrow> Index s [c] = None"
  by (induction s) (auto simp: HasPrefix_def)

lemma Index_char_first: "c \<notin> set k \<Longrightarrow> Index (k @ c # rest) [c] = Some (length k)"
  by (induction k) (auto simp: HasPrefix_def)

lemma Cut_no_sep: "c \<notin> set s \<Longrightarrow> Cut s [c] = (s, [], False)"
  by (simp add: Cut_def Index_char_None)

lemma Cut_first: "c \<notin> set k \<Longrightarrow> Cut (k @ c # rest) [c] = (k, rest, True)"
  by (simp add: Cut_def Index_char_first)

lemma genEnvMap_foldl: "genEnvMap env = foldl envEntry Map.empty env"
proof -
  have "envEntry = (\<lambda>envMap en. case Cut en ''='' of
                                    (k, v, ok) \<Rightarrow> if ok then envMap(k \<mapsto> v) else envMap)"
    by (intro ext) (simp add: envEntry_def)
  then show ?thesis by (simp add: genEnvMap_def)
qed

lemma envEntry_no_equals: "CHR ''='' \<notin> set en \<Longrightarrow> envEntry envMap en = envMap"
  by (simp add: envEntry_def Cut_no_sep)

lemma genEnvMap_no_equals:
  "CHR ''='' \<notin> set en \<Longrightarrow> genEnvMap (env1 @ en # env2) = genEnvMap (env1 @ env2)"
  by (simp add: genEnvMap_foldl envEntry_no_equals)

lemma genEnvMap_empty_value:
  "CHR ''='' \<notin> set k \<Longrightarrow> genEnvMap (env @ [k @ ''='']) k = Some []"
  by (simp add: genEnvMap_foldl envEntry_def Cut_first)

lemma ParseEnvSet_genEnvMap:
  "genEnvMap env = genEnvMap env' \<Longrightarrow>
   ParseEnvSet vSet upperCase readEnvPrefix fl env h = ParseEnvSet vSet upperCase readEnvPrefix fl env' h"
  by (simp add: ParseEnvSet_def)

lemma ParseConfigSet_genEnvMap:
  "genEnvMap env = genEnvMap env' \<Longrightarrow>
   ParseConfigSet vSet osOpen fl env path h = ParseConfigSet vSet osOpen fl env' path h"
  by (simp add: ParseConfigSet_def)

text \<open>
  C10. An entry without \<open>=\<close> leaves the snapshot as it is without the entry, wherever
  it stands in the list: it adds no key, and the results of \<open>ParseEnvSet\<close> and of
  \<open>ParseConfigSet\<close> (values supplied, expansion, errors) are the same with and without
  it. An entry \<open>K=\<close> (no \<open>=\<close> in \<open>K\<close>), as the last entry for \<open>K\<close>, maps \<open>K\<close> to the
  empty string.
\<close>

theorem genEnvMap_entry_without_equals:
  "(CHR ''='' \<notin> set en \<longrightarrow>
      genEnvMap (env1 @ en # env2) = genEnvMap (env1 @ env2)
      \<and> dom (genEnvMap (env1 @ en # env2)) = dom (genEnvMap (env1 @ env2))
      \<and> ParseEnvSet vSet upperCase readEnvPrefix fl (env1 @ en # env2) h
          = ParseEnvSet vSet upperCase readEnvPrefix fl (env1 @ env2) h
      \<and> ParseConfigSet vSet osOpen fl (env1 @ en # env2) path h
          = ParseConfigSet vSet osOpen fl (env1 @ env2) path h)
   \<and> (CHR ''='' \<notin> set k \<longrightarrow> genEnvMap (env @ [k @ ''='']) k = Some [])"
  using genEnvMap_no_equals [of en env1 env2] genEnvMap_empty_value [of k env]
    ParseEnvSet_genEnvMap [of "env1 @ en # env2" "env1 @ env2" vSet upperCase readEnvPrefix fl h]
    ParseConfigSet_genEnvMap [of "env1 @ en # env2" "env1 @ env2" vSet osOpen fl path h]
  by simp

theorem genEnvMap_entry_without_equals_witness:
  "genEnvMap [''A=1'', ''TEST_STR'', ''B=2''] = genEnvMap [''A=1'', ''B=2'']
   \<and> genEnvMap [''A=1'', ''TEST_STR'', ''B=2''] ''TEST_STR'' = None
   \<and> ParseEnvSet testSet latin1UpperCase ReadEnvPrefix (testFlags ContinueOnError)
         [''A=1'', ''TEST_STR'', ''B=2''] testMemory
       = ParseEnvSet testSet latin1UpperCase ReadEnvPrefix (testFlags ContinueOnError)
           [''A=1'', ''B=2''] testMemory
   \<and> genEnvMap [''A=1'', ''K=''] ''K'' = Some []"
proof -
  have "genEnvMap [''A=1'', ''B=2''] ''TEST_STR'' = None"
    by code_simp
  then show ?thesis
    using genEnvMap_entry_without_equals [where en = "''TEST_STR''" and ?env1.0 = "[''A=1'']"
        and ?env2.0 = "[''B=2'']" and vSet = testSet and upperCase = latin1UpperCase
        and readEnvPrefix = ReadEnvPrefix and fl = "testFlags ContinueOnError" and h = testMemory
        and osOpen = testFS and path = "[]" and k = "''K''" and env = "[''A=1'']"]
    by simp
qed

subsection \<open>Keys of the config file that name no flag\<close>

lemma scanConfig_foldl: "scanConfig ls = foldl configEntry Map.empty ls"
proof -
  have "configEntry = (\<lambda>config text. case configLine text of
                                         None \<Rightarrow> config
                                       | Some (k, v) \<Rightarrow> config(k \<mapsto> configAt config k @ [v]))"
    by (intro ext) (simp add: configEntry_def)
  then show ?thesis by (simp add: scanConfig_def)
qed

lemma configEntry_agree:
  assumes "\<forall>n. n \<noteq> k \<longrightarrow> c1 n = c2 n"
  shows "\<forall>n. n \<noteq> k \<longrightarrow> configEntry c1 text n = configEntry c2 text n"
  using assms
  by (auto simp: configEntry_def configAt_def split: option.splits)

lemma foldl_configEntry_agree:
  "\<forall>n. n \<noteq> k \<longrightarrow> c1 n = c2 n \<Longrightarrow>
   \<forall>n. n \<noteq> k \<longrightarrow> foldl configEntry c1 ls n = foldl configEntry c2 ls n"
proof (induction ls arbitrary: c1 c2)
  case Nil
  then show ?case by simp
next
  case (Cons l ls)
  from configEntry_agree [OF Cons.prems, of l]
  show ?case by (simp add: Cons.IH)
qed

lemma scanConfig_unknown_key:
  assumes "configLine l = Some (k, v)" and "n \<noteq> k"
  shows "configAt (scanConfig (ls1 @ l # ls2)) n = configAt (scanConfig (ls1 @ ls2)) n"
proof -
  let ?c = "foldl configEntry Map.empty ls1"
  have "\<forall>n. n \<noteq> k \<longrightarrow> configEntry ?c l n = ?c n"
    using assms(1) by (simp add: configEntry_def)
  from foldl_configEntry_agree [OF this, of ls2] assms(2)
  show ?thesis by (simp add: scanConfig_foldl configAt_def)
qed

lemma VisitAll_cong_set:
  "(\<And>f st. f \<in> set fs \<Longrightarrow> fn f st = gn f st) \<Longrightarrow> VisitAll fn fs st = VisitAll gn fs st"
  by (induction fs arbitrary: st) simp_all

lemma runPass_cong:
  assumes "\<And>f. f \<in> set (formal fl) \<Longrightarrow> vals (Name f) = vals' (Name f)"
  shows "runPass vSet expand vals fl h = runPass vSet expand vals' fl h"
proof -
  have "VisitAll (visitor (getSetFlags fl) vSet expand vals) (formal fl) st
          = VisitAll (visitor (getSetFlags fl) vSet expand vals') (formal fl) st" for st
    by (rule VisitAll_cong_set) (simp add: visitor_def assms)
  then show ?thesis by (simp add: runPass_def)
qed

text \<open>
  C9. A line of the config file whose key names no registered flag is ignored: with the
  line or without it (wherever it stands in the file) \<open>ParseConfigSet\<close> gives the same
  result, that is the same error or none, the same setter calls and the same memory
  after the call.
\<close>

theorem unknown_config_key_ignored:
  assumes "configLine l = Some (k, v)" and "k \<notin> Name ` set (formal fl)"
  shows "ParseConfigSet vSet (osOpen(p := Inr \<lparr>scanned = ls1 @ l # ls2, scanErr = e\<rparr>)) fl env path h
         = ParseConfigSet vSet (osOpen(p := Inr \<lparr>scanned = ls1 @ ls2, scanErr = e\<rparr>)) fl env path h"
proof (cases "path \<noteq> [] \<and> envExpand env path = p \<and> e = None")
  case True
  let ?f1 = "\<lparr>scanned = ls1 @ l # ls2, scanErr = e\<rparr>"
  let ?f2 = "\<lparr>scanned = ls1 @ ls2, scanErr = e\<rparr>"
  have "runPass vSet (envExpand env) (configValues ?f1) fl h
          = runPass vSet (envExpand env) (configValues ?f2) fl h"
  proof (rule runPass_cong)
    fix f assume "f \<in> set (formal fl)"
    with assms(2) have "Name f \<noteq> k" by auto
    with assms(1) show "configValues ?f1 (Name f) = configValues ?f2 (Name f)"
      by (simp add: configValues_def scanConfig_unknown_key)
  qed
  moreover have "ParseConfigSet vSet (osOpen(p := Inr ?f1)) fl env path h
                   = runPass vSet (envExpand env) (configValues ?f1) fl h"
    using True by (intro ParseConfigSet_runPass) simp_all
  moreover have "ParseConfigSet vSet (osOpen(p := Inr ?f2)) fl env path h
                   = runPass vSet (envExpand env) (configValues ?f2) fl h"
    using True by (intro ParseConfigSet_runPass) simp_all
  ultimately show ?thesis by simp
next
  case False
  then show ?thesis
    by (auto simp: ParseConfigSet_def Let_def Expand_envExpand split: option.splits)
qed

theorem unknown_config_key_ignored_witness:
  "rErr (ParseConfigSet testSet testFS (testFlags ContinueOnError) [] ''conf-unknown-option''
           testMemory) = None
   \<and> rCalls (ParseConfigSet testSet testFS (testFlags ContinueOnError) [] ''conf-unknown-option''
                testMemory) = []
   \<and> map (rMemory (ParseConfigSet testSet testFS (testFlags ContinueOnError) []
                      ''conf-unknown-option'' testMemory)) [''fa'', ''conf'', ''str'', ''we'']
       = map testMemory [''fa'', ''conf'', ''str'', ''we'']
   \<and> formal (rFlagSet (ParseConfigSet testSet testFS (testFlags ContinueOnError) []
                          ''conf-unknown-option'' testMemory))
       = formal (testFlags ContinueOnError)"
proof -
  let ?p = "''conf-unknown-option''"
  let ?fl = "testFlags ContinueOnError"
  let ?without = "testFS(?p := Inr \<lparr>scanned = [] @ [[]], scanErr = None\<rparr>)"
  have fs: "testFS = testFS(?p := Inr \<lparr>scanned = [] @ ''unknown-option hello'' # [[]],
                                         scanErr = None\<rparr>)"
    by (auto simp: testFS_def fun_eq_iff)
  have cl: "configLine ''unknown-option hello'' = Some (''unknown-option'', ''hello'')"
    by code_simp
  have nk: "''unknown-option'' \<notin> Name ` set (formal ?fl)"
    by (simp add: testFlags_def)
  have "ParseConfigSet testSet testFS ?fl [] ?p testMemory
          = ParseConfigSet testSet ?without ?fl [] ?p testMemory"
    by (subst fs) (rule unknown_config_key_ignored [OF cl nk])
  moreover have "rErr (ParseConfigSet testSet ?without ?fl [] ?p testMemory) = None"
    by code_simp
  moreover have "rCalls (ParseConfigSet testSet ?without ?fl [] ?p testMemory) = []"
    by code_simp
  moreover have "map (rMemory (ParseConfigSet testSet ?without ?fl [] ?p testMemory))
                     [''fa'', ''conf'', ''str'', ''we'']
                   = map testMemory [''fa'', ''conf'', ''str'', ''we'']"
    by code_simp
  moreover have "formal (rFlagSet (ParseConfigSet testSet ?without ?fl [] ?p testMemory))
                   = formal ?fl"
    by code_simp
  ultimately show ?thesis by simp
qed

subsection \<open>Failures to open and to scan the config file\<close>

lemma deferMimic_rest:
  "rFlagSet (deferMimic fl h cs err) = fl\<lparr>out := out (rFlagSet (deferMimic fl h cs err))\<rparr>"
  by (simp add: deferMimic_def mimicFlagSetError_def Let_def
        split: option.splits ErrorHandling.splits prod.splits)

text \<open>
  C3. \<open>ParseConfigSet\<close> returns \<open>nil\<close>, with the flag set and the memory as they were,
  when the path is empty or the expanded path names no existing file. Any other failure
  to open the file gives the error \<open>open config file: \<close> followed by the cause's
  message, wrapping the cause; a failure while scanning gives the error
  \<open>scan config: \<close> followed by the cause's message, wrapping the cause. In all four
  outcomes no setter has been called and the flags, set or not, and the memory that
  holds their values are as before: only the flag set's output has the report of the
  error, and the call ends as the policy says.
\<close>

theorem config_file_failures:
  assumes "r = ParseConfigSet vSet osOpen fl env path h"
  shows "(path = [] \<or> (\<exists>e. osOpen (envExpand env path) = Inl e \<and> IsNotExist e) \<longrightarrow>
            r = \<lparr>rFlagSet = fl, rMemory = h, rErr = None, rStatus = Returns, rCalls = []\<rparr>)
         \<and> (path \<noteq> [] \<and> osOpen (envExpand env path) = Inl e \<and> \<not> IsNotExist e \<longrightarrow>
              rErr r = Some (WrapError (''open config file: '' @ Error e) e))
         \<and> (path \<noteq> [] \<and> osOpen (envExpand env path) = Inr fi \<and> scanErr fi = Some e \<longrightarrow>
              rErr r = Some (WrapError (''scan config: '' @ Error e) e))
         \<and> (path = [] \<or> (\<exists>e. osOpen (envExpand env path) = Inl e)
               \<or> (\<exists>fi e. osOpen (envExpand env path) = Inr fi \<and> scanErr fi = Some e) \<longrightarrow>
              rCalls r = [] \<and> rMemory r = h
              \<and> formal (rFlagSet r) = formal fl \<and> actual (rFlagSet r) = actual fl
              \<and> rFlagSet r = fl\<lparr>out := out (rFlagSet r)\<rparr>
              \<and> rStatus r = (case rErr r of
                               None \<Rightarrow> Returns
                             | Some e \<Rightarrow> (case errorHandling fl of
                                            ContinueOnError \<Rightarrow> Returns
                                          | ExitOnError \<Rightarrow> Exits 2
                                          | PanicOnError \<Rightarrow> Panics e)))"
  unfolding assms
  by (auto simp: ParseConfigSet_def Let_def Expand_envExpand Errorf_w_def deferMimic_rest [symmetric])

theorem config_file_failures_witness:
  "ParseConfigSet testSet testFS (testFlags ExitOnError) [''HOME=/x''] [] testMemory
     = \<lparr>rFlagSet = testFlags ExitOnError, rMemory = testMemory, rErr = None, rStatus = Returns,
        rCalls = []\<rparr>
   \<and> ParseConfigSet testSet testFS (testFlags ExitOnError) [''HOME=/x''] ''$HOME/missing''
       testMemory
     = \<lparr>rFlagSet = testFlags ExitOnError, rMemory = testMemory, rErr = None, rStatus = Returns,
        rCalls = []\<rparr>
   \<and> rErr (ParseConfigSet testSet testFS (testFlags ExitOnError) [''HOME=/x''] ''conf-no-perm''
             testMemory)
     = Some (WrapError ''open config file: open conf-no-perm: permission denied''
               (PathError ''open'' ''conf-no-perm'' (Errno EACCES)))
   \<and> rMemory (ParseConfigSet testSet testFS (testFlags ExitOnError) [''HOME=/x''] ''conf-no-perm''
                testMemory)
     = testMemory
   \<and> rErr (ParseConfigSet testSet testFS (testFlags ExitOnError) [''HOME=/x''] ''some-dir''
             testMemory)
     = Some (WrapError ''scan config: read some-dir: is a directory''
               (PathError ''read'' ''some-dir'' (Errno EISDIR)))
   \<and> rCalls (ParseConfigSet testSet testFS (testFlags ExitOnError) [''HOME=/x''] ''some-dir''
                testMemory) = []
   \<and> rMemory (ParseConfigSet testSet testFS (testFlags ExitOnError) [''HOME=/x''] ''some-dir''
                testMemory)
     = testMemory
   \<and> formal (rFlagSet (ParseConfigSet testSet testFS (testFlags ExitOnError) [''HOME=/x'']
                          ''some-dir'' testMemory))
     = formal (testFlags ExitOnError)
   \<and> rStatus (ParseConfigSet testSet testFS (testFlags ExitOnError) [''HOME=/x''] ''some-dir''
                 testMemory)
     = Exits 2"
proof -
  let ?fl = "testFlags ExitOnError"
  let ?env = "[''HOME=/x'']"
  have x: "envExpand ?env ''$HOME/missing'' = ''/x/missing''"
    "envExpand ?env ''conf-no-perm'' = ''conf-no-perm''"
    "envExpand ?env ''some-dir'' = ''some-dir''"
    by code_simp+
  have o: "testFS ''/x/missing'' = Inl (PathError ''open'' ''/x/missing'' (Errno ENOENT))"
    "testFS ''conf-no-perm'' = Inl (PathError ''open'' ''conf-no-perm'' (Errno EACCES))"
    "testFS ''some-dir''
       = Inr \<lparr>scanned = [], scanErr = Some (PathError ''read'' ''some-dir'' (Errno EISDIR))\<rparr>"
    by (simp_all add: testFS_def)
  have eh: "errorHandling ?fl = ExitOnError"
    by (simp add: testFlags_def)
  show ?thesis
    using
      config_file_failures [of "ParseConfigSet testSet testFS ?fl ?env [] testMemory"
        testSet testFS ?fl ?env "[]" testMemory]
      config_file_failures [of "ParseConfigSet testSet testFS ?fl ?env ''$HOME/missing'' testMemory"
        testSet testFS ?fl ?env "''$HOME/missing''" testMemory]
      config_file_failures [of "ParseConfigSet testSet testFS ?fl ?env ''conf-no-perm'' testMemory"
        testSet testFS ?fl ?env "''conf-no-perm''" testMemory
        "PathError ''open'' ''conf-no-perm'' (Errno EACCES)"]
      config_file_failures [of "ParseConfigSet testSet testFS ?fl ?env ''some-dir'' testMemory"
        testSet testFS ?fl ?env "''some-dir''" testMemory
        "PathError ''read'' ''some-dir'' (Errno EISDIR)"
        "\<lparr>scanned = [], scanErr = Some (PathError ''read'' ''some-dir'' (Errno EISDIR))\<rparr>"]
    by (simp add: x o eh)
qed

text \<open>
  C3, the message of a scan failure: scanning the directory \<open>some-dir\<close> of the test script
  gives \<open>scan config: read some-dir: is a directory\<close>, where the words
  \<open>scan config file\<close> do not occur.
\<close>

theorem scan_error_message_counterexample:
  "map_option Error (rErr (ParseConfigSet testSet testFS (testFlags ContinueOnError) [] ''some-dir''
                             testMemory))
     = Some ''scan config: read some-dir: is a directory''
   \<and> \<not> Contains ''scan config: read some-dir: is a directory'' ''scan config file''"
  by code_simp

subsection \<open>The two resolvers one after the other\<close>

text \<open>
  C2. Neither resolver records the flags it has supplied: it calls \<open>f.Value.Set\<close>, not
  \<open>fl.Set\<close>, so \<open>Visit\<close> does not report them and the other resolver supplies them
  again. In the test program, where the flag \<open>str\<close> is the third flag and has the
  variable \<open>str\<close>, with \<open>TEST_STR=from env\<close> and the file \<open>conf\<close> (which has the line
  \<open>str the str\<close>), \<open>ParseEnvSet\<close> sets \<open>str\<close> to \<open>from env\<close> and \<open>ParseConfigSet\<close>
  after it, on the flag set and in the memory that \<open>ParseEnvSet\<close> has left, overwrites
  that with \<open>the str\<close>; in the other order the value from the file is overwritten with
  the value from the environment.
\<close>

theorem env_value_overwritten_by_config:
  "formal (testFlags ContinueOnError) ! 2 = \<lparr>Name = ''str'', Value = ''str''\<rparr>
   \<and> rMemory (ParseEnvSet testSet latin1UpperCase ReadEnvPrefix (testFlags ContinueOnError)
                 [''TEST_STR=from env''] testMemory) ''str''
     = StringValue ''from env''
   \<and> rMemory (ParseConfigSet testSet testFS
                 (rFlagSet (ParseEnvSet testSet latin1UpperCase ReadEnvPrefix
                              (testFlags ContinueOnError) [''TEST_STR=from env''] testMemory))
                 [''TEST_STR=from env''] ''conf''
                 (rMemory (ParseEnvSet testSet latin1UpperCase ReadEnvPrefix
                             (testFlags ContinueOnError) [''TEST_STR=from env''] testMemory)))
         ''str''
     = StringValue ''the str''
   \<and> rMemory (ParseConfigSet testSet testFS (testFlags ContinueOnError)
                 [''TEST_STR=from env''] ''conf'' testMemory) ''str''
     = StringValue ''the str''
   \<and> rMemory (ParseEnvSet testSet latin1UpperCase ReadEnvPrefix
                 (rFlagSet (ParseConfigSet testSet testFS (testFlags ContinueOnError)
                              [''TEST_STR=from env''] ''conf'' testMemory))
                 [''TEST_STR=from env'']
                 (rMemory (ParseConfigSet testSet testFS (testFlags ContinueOnError)
                             [''TEST_STR=from env''] ''conf'' testMemory)))
         ''str''
     = StringValue ''from env''"
  by code_simp

subsection \<open>The lines of the config file\<close>

lemma HasPrefix_iff: "HasPrefix s w \<longleftrightarrow> (\<exists>r. s = w @ r)"
proof
  assume "HasPrefix s w"
  then have "s = w @ drop (length w) s"
    by (metis HasPrefix_def append_take_drop_id)
  then show "\<exists>r. s = w @ r" ..
next
  assume "\<exists>r. s = w @ r"
  then show "HasPrefix s w" by (auto simp: HasPrefix_def)
qed

lemma HasSuffix_iff: "HasSuffix s w \<longleftrightarrow> (\<exists>p. s = p @ w)"
proof
  assume "HasSuffix s w"
  then have "s = take (length s - length w) s @ w"
    by (metis HasSuffix_def append_take_drop_id)
  then show "\<exists>p. s = p @ w" ..
next
  assume "\<exists>p. s = p @ w"
  then show "HasSuffix s w" by (auto simp: HasSuffix_def)
qed

lemma leadingSpace_None: "leadingSpace s = None \<longleftrightarrow> (\<forall>w \<in> set spaceRunes. \<not> HasPrefix s w)"
  by (auto simp: leadingSpace_def find_None_iff)

lemma trailingSpace_None: "trailingSpace s = None \<longleftrightarrow> (\<forall>w \<in> set spaceRunes. \<not> HasSuffix s w)"
  by (auto simp: trailingSpace_def find_None_iff)

lemma leadingSpace_in: "leadingSpace s = Some w \<Longrightarrow> w \<in> set spaceRunes"
  by (auto simp: leadingSpace_def find_Some_iff)

lemma trailingSpace_in: "trailingSpace s = Some w \<Longrightarrow> w \<in> set spaceRunes"
  by (auto simp: trailingSpace_def find_Some_iff)

lemma isSpaces_Nil: "isSpaces []"
  unfolding isSpaces_def by (rule exI [of _ "[]"]) simp

lemma isSpaces_Cons: "w \<in> set spaceRunes \<Longrightarrow> isSpaces g \<Longrightarrow> isSpaces (w @ g)"
proof -
  assume w: "w \<in> set spaceRunes" and "isSpaces g"
  then obtain ws where "set ws \<subseteq> set spaceRunes" "g = concat ws"
    by (auto simp: isSpaces_def)
  with w have "set (w # ws) \<subseteq> set spaceRunes \<and> w @ g = concat (w # ws)" by simp
  then show ?thesis unfolding isSpaces_def by blast
qed

lemma isSpaces_snoc: "isSpaces g \<Longrightarrow> w \<in> set spaceRunes \<Longrightarrow> isSpaces (g @ w)"
proof -
  assume "isSpaces g" and w: "w \<in> set spaceRunes"
  then obtain ws where "set ws \<subseteq> set spaceRunes" "g = concat ws"
    by (auto simp: isSpaces_def)
  with w have "set (ws @ [w]) \<subseteq> set spaceRunes \<and> g @ w = concat (ws @ [w])" by simp
  then show ?thesis unfolding isSpaces_def by blast
qed

lemma TrimLeftSpace_decomp:
  "\<exists>pre. s = pre @ TrimLeftSpace s \<and> isSpaces pre \<and> leadingSpace (TrimLeftSpace s) = None"
proof (induction s rule: TrimLeftSpace.induct)
  case (1 s)
  show ?case
  proof (cases "leadingSpace s")
    case None
    then have "TrimLeftSpace s = s" by (simp add: TrimLeftSpace.simps)
    with None isSpaces_Nil show ?thesis by auto
  next
    case (Some w)
    then have t: "TrimLeftSpace s = TrimLeftSpace (drop (length w) s)"
      by (simp add: TrimLeftSpace.simps [of s])
    from Some have w: "w \<in> set spaceRunes" and "HasPrefix s w"
      using leadingSpace_in leadingSpace_Some by auto
    then have s: "s = w @ drop (length w) s"
      by (metis HasPrefix_def append_take_drop_id)
    from "1.IH" [OF Some] obtain pre where
      pre: "drop (length w) s = pre @ TrimLeftSpace (drop (length w) s)" "isSpaces pre"
        "leadingSpace (TrimLeftSpace (drop (length w) s)) = None"
      by blast
    have "s = (w @ pre) @ TrimLeftSpace s"
      using s pre(1) t by (metis append_assoc)
    moreover have "isSpaces (w @ pre)" using w pre(2) by (rule isSpaces_Cons)
    ultimately show ?thesis using pre(3) t by metis
  qed
qed

lemma TrimRightSpace_decomp:
  "\<exists>post. s = TrimRightSpace s @ post \<and> isSpaces post \<and> trailingSpace (TrimRightSpace s) = None"
proof (induction s rule: TrimRightSpace.induct)
  case (1 s)
  show ?case
  proof (cases "trailingSpace s")
    case None
    then have "TrimRightSpace s = s" by (simp add: TrimRightSpace.simps)
    with None isSpaces_Nil show ?thesis by auto
  next
    case (Some w)
    let ?s' = "take (length s - length w) s"
    from Some have t: "TrimRightSpace s = TrimRightSpace ?s'"
      by (simp add: TrimRightSpace.simps [of s])
    from Some have w: "w \<in> set spaceRunes" and "HasSuffix s w"
      using trailingSpace_in trailingSpace_Some by auto
    then have s: "s = ?s' @ w"
      by (metis HasSuffix_def append_take_drop_id)
    from "1.IH" [OF Some] obtain post where
      post: "?s' = TrimRightSpace ?s' @ post" "isSpaces post"
        "trailingSpace (TrimRightSpace ?s') = None"
      by blast
    have "s = TrimRightSpace s @ (post @ w)"
      using s post(1) t by (metis append_assoc)
    moreover have "isSpaces (post @ w)" using post(2) w by (rule isSpaces_snoc)
    ultimately show ?thesis using post(3) t by metis
  qed
qed

lemma isSpaces_trailing:
  assumes "isSpaces g" and "g \<noteq> []"
  shows "trailingSpace g \<noteq> None"
proof -
  from assms(1) obtain ws where ws: "set ws \<subseteq> set spaceRunes" "g = concat ws"
    by (auto simp: isSpaces_def)
  with assms(2) have "ws \<noteq> []" by auto
  then have "g = concat (butlast ws) @ last ws"
    using ws(2) by (metis append_butlast_last_id concat_append concat.simps(2) concat.simps(1) append_Nil2)
  then have "HasSuffix g (last ws)" by (auto simp: HasSuffix_iff)
  moreover have "last ws \<in> set spaceRunes" using \<open>ws \<noteq> []\<close> ws(1) by auto
  ultimately show ?thesis by (auto simp: trailingSpace_None)
qed

lemma trailingSpace_suffix:
  "trailingSpace (p @ v) = None \<Longrightarrow> v \<noteq> [] \<Longrightarrow> trailingSpace v = None"
proof -
  assume n: "trailingSpace (p @ v) = None" and "v \<noteq> []"
  have "\<not> HasSuffix v w" if "w \<in> set spaceRunes" for w
  proof
    assume "HasSuffix v w"
    then obtain q where "v = q @ w" by (auto simp: HasSuffix_iff)
    then have "HasSuffix (p @ v) w" by (auto simp: HasSuffix_iff)
    with n that show False by (auto simp: trailingSpace_None)
  qed
  then show ?thesis by (auto simp: trailingSpace_None)
qed

lemma leadingSpace_prefix:
  "leadingSpace (t @ q) = None \<Longrightarrow> t \<noteq> [] \<Longrightarrow> leadingSpace t = None"
proof -
  assume n: "leadingSpace (t @ q) = None" and "t \<noteq> []"
  have "\<not> HasPrefix t w" if "w \<in> set spaceRunes" for w
  proof
    assume "HasPrefix t w"
    then obtain r where "t = w @ r" by (auto simp: HasPrefix_iff)
    then have "HasPrefix (t @ q) w" by (auto simp: HasPrefix_iff)
    with n that show False by (auto simp: leadingSpace_None)
  qed
  then show ?thesis by (auto simp: leadingSpace_None)
qed

lemma leadingSpace_Nil: "leadingSpace [] = None"
  by (auto simp: leadingSpace_None HasPrefix_def spaceRunes_nonempty)

lemma TrimSpace_decomp:
  "\<exists>pre post. s = pre @ TrimSpace s @ post \<and> isSpaces pre \<and> isSpaces post
     \<and> leadingSpace (TrimSpace s) = None \<and> trailingSpace (TrimSpace s) = None"
proof -
  obtain pre where pre: "s = pre @ TrimLeftSpace s" "isSpaces pre"
      "leadingSpace (TrimLeftSpace s) = None"
    using TrimLeftSpace_decomp by blast
  obtain post where post: "TrimLeftSpace s = TrimSpace s @ post" "isSpaces post"
      "trailingSpace (TrimSpace s) = None"
    using TrimRightSpace_decomp [of "TrimLeftSpace s"] by (auto simp: TrimSpace_def)
  have "leadingSpace (TrimSpace s) = None"
  proof (cases "TrimSpace s = []")
    case True
    then show ?thesis by (simp add: leadingSpace_Nil)
  next
    case False
    with pre(3) post(1) show ?thesis by (metis leadingSpace_prefix)
  qed
  with pre post show ?thesis by metis
qed

lemma IndexAny_None: "IndexAny s chars = None \<longleftrightarrow> set s \<inter> set chars = {}"
  by (induction s) auto

lemma IndexAny_Some:
  "IndexAny s chars = Some i \<Longrightarrow>
   i < length s \<and> s ! i \<in> set chars \<and> set (take i s) \<inter> set chars = {}"
proof (induction s arbitrary: i)
  case Nil
  then show ?case by simp
next
  case (Cons c cs)
  show ?case
  proof (cases "c \<in> set chars")
    case True
    with Cons.prems show ?thesis by simp
  next
    case False
    with Cons.prems obtain j where j: "IndexAny cs chars = Some j" "i = Suc j" by auto
    from Cons.IH [OF j(1)] False j(2) show ?thesis by simp
  qed
qed

lemma space_byte_leading:
  assumes "s \<noteq> []" and "hd s = CHR 0x09 \<or> hd s = CHR 0x20"
  shows "leadingSpace s \<noteq> None"
proof -
  from assms(1) have "HasPrefix s [hd s]" by (cases s) (simp_all add: HasPrefix_def)
  moreover have "[hd s] \<in> set spaceRunes" using assms(2) by (auto simp: spaceRunes_def)
  ultimately show ?thesis by (auto simp: leadingSpace_None)
qed

text \<open>A trimmed line with a tab or a space: the key, the gap and the value.\<close>

lemma trimmed_line_split:
  assumes lead: "leadingSpace line = None" and trail: "trailingSpace line = None"
    and idx: "IndexAny line [CHR 0x09, CHR 0x20] = Some idx"
  shows "\<exists>gap. line = take idx line @ gap @ TrimSpace (drop idx line)
           \<and> take idx line \<noteq> []
           \<and> CHR 0x09 \<notin> set (take idx line) \<and> CHR 0x20 \<notin> set (take idx line)
           \<and> gap \<noteq> [] \<and> (hd gap = CHR 0x09 \<or> hd gap = CHR 0x20) \<and> isSpaces gap
           \<and> TrimSpace (drop idx line) \<noteq> []
           \<and> leadingSpace (TrimSpace (drop idx line)) = None
           \<and> trailingSpace (TrimSpace (drop idx line)) = None"
proof -
  let ?k = "take idx line" and ?rest = "drop idx line"
  from IndexAny_Some [OF idx]
  have i: "idx < length line" and at: "line ! idx = CHR 0x09 \<or> line ! idx = CHR 0x20"
    and k: "CHR 0x09 \<notin> set ?k" "CHR 0x20 \<notin> set ?k"
    by auto
  from i have rest: "?rest \<noteq> []" and hd_rest: "hd ?rest = line ! idx"
    by (simp_all add: hd_drop_conv_nth)
  have line: "line = ?k @ ?rest" by simp
  have k_ne: "?k \<noteq> []"
  proof
    assume "?k = []"
    with i have "idx = 0" by auto
    with at i have "line \<noteq> []" "hd line = CHR 0x09 \<or> hd line = CHR 0x20"
      by (auto simp: hd_conv_nth)
    with lead show False using space_byte_leading by blast
  qed
  obtain gap where gap: "?rest = gap @ TrimLeftSpace ?rest" "isSpaces gap"
      "leadingSpace (TrimLeftSpace ?rest) = None"
    using TrimLeftSpace_decomp by blast
  have gap_ne: "gap \<noteq> []"
  proof
    assume "gap = []"
    with gap have "leadingSpace ?rest = None" by simp
    moreover have "leadingSpace ?rest \<noteq> None"
      using rest hd_rest at by (intro space_byte_leading) auto
    ultimately show False by simp
  qed
  then have hd_gap: "hd gap = CHR 0x09 \<or> hd gap = CHR 0x20"
    using gap(1) hd_rest at by (metis hd_append2)
  have trail_rest: "trailingSpace ?rest = None"
    using trail rest line by (metis trailingSpace_suffix)
  have v_ne: "TrimLeftSpace ?rest \<noteq> []"
  proof
    assume "TrimLeftSpace ?rest = []"
    with gap have "?rest = gap" by simp
    with gap(2) rest have "trailingSpace ?rest \<noteq> None"
      using isSpaces_trailing by metis
    with trail_rest show False by simp
  qed
  have "trailingSpace (TrimLeftSpace ?rest) = None"
    using trail_rest gap(1) v_ne by (metis trailingSpace_suffix)
  then have v: "TrimSpace ?rest = TrimLeftSpace ?rest"
    by (simp add: TrimSpace_def TrimRightSpace.simps)
  have "line = ?k @ gap @ TrimSpace ?rest"
    using line gap(1) v by metis
  with k_ne k gap_ne hd_gap gap(2) v_ne gap(3) v \<open>trailingSpace (TrimLeftSpace ?rest) = None\<close>
  show ?thesis by metis
qed

lemma configLine_examples:
  "configLine (''arr'' @ [CHR 0x09] @ ''value 2'') = Some (''arr'', ''value 2'')"
  "configLine ''uh'' = Some (''uh'', ''true'')"
  "configLine ''# comment'' = None"
  "configLine [] = None"
  by code_simp+

lemma scanConfig_snoc:
  "scanConfig (ls @ [text]) =
     (case configLine text of
        None \<Rightarrow> scanConfig ls
      | Some (k, v) \<Rightarrow> (scanConfig ls)(k \<mapsto> configAt (scanConfig ls) k @ [v]))"
  by (simp add: scanConfig_def split: option.splits)

text \<open>
  C7. Let \<open>line\<close> be a line of the file after \<open>TrimSpace\<close>: the line without the white
  space around it, so that it neither begins nor ends with a space rune. An empty
  \<open>line\<close> and one beginning with \<open>#\<close> add nothing to the table. A \<open>line\<close> with no tab
  and no space is a key with the value \<open>true\<close>. Any other \<open>line\<close> is a key, a gap
  and a value: the key is not empty and has no tab or space, the gap is a run of white
  space that begins with the first tab or space of the line, and the value is the rest,
  not empty, with no white space before or after it. The key and the value are appended
  to the table. So \<open>arr\<close>, a tab, \<open>value 2\<close> gives the key \<open>arr\<close> and the value
  \<open>value 2\<close>, and \<open>uh\<close> gives the key \<open>uh\<close> and the value \<open>true\<close>.
\<close>

theorem configLine_parse:
  assumes "line = TrimSpace text"
  shows "(\<exists>pre post. text = pre @ line @ post \<and> isSpaces pre \<and> isSpaces post)
         \<and> leadingSpace line = None \<and> trailingSpace line = None
         \<and> (line = [] \<or> HasPrefix line ''#'' \<longrightarrow> configLine text = None)
         \<and> (line \<noteq> [] \<and> \<not> HasPrefix line ''#''
              \<and> CHR 0x09 \<notin> set line \<and> CHR 0x20 \<notin> set line \<longrightarrow>
              configLine text = Some (line, ''true''))
         \<and> (line \<noteq> [] \<and> \<not> HasPrefix line ''#''
              \<and> (CHR 0x09 \<in> set line \<or> CHR 0x20 \<in> set line) \<longrightarrow>
              (\<exists>k gap v. configLine text = Some (k, v) \<and> line = k @ gap @ v
                 \<and> k \<noteq> [] \<and> CHR 0x09 \<notin> set k \<and> CHR 0x20 \<notin> set k
                 \<and> gap \<noteq> [] \<and> (hd gap = CHR 0x09 \<or> hd gap = CHR 0x20) \<and> isSpaces gap
                 \<and> v \<noteq> [] \<and> leadingSpace v = None \<and> trailingSpace v = None))
         \<and> scanConfig (ls @ [text]) =
             (case configLine text of
                None \<Rightarrow> scanConfig ls
              | Some (k, v) \<Rightarrow> (scanConfig ls)(k \<mapsto> configAt (scanConfig ls) k @ [v]))
         \<and> configLine (''arr'' @ [CHR 0x09] @ ''value 2'') = Some (''arr'', ''value 2'')
         \<and> configLine ''uh'' = Some (''uh'', ''true'')"
proof -
  from TrimSpace_decomp [of "text"] assms
  have trimmed: "\<exists>pre post. text = pre @ line @ post \<and> isSpaces pre \<and> isSpaces post"
    and lead: "leadingSpace line = None" and trail: "trailingSpace line = None"
    by auto
  have skip: "configLine text = None" if "line = [] \<or> HasPrefix line ''#''"
    using that assms by (auto simp: configLine_def)
  have bare: "configLine text = Some (line, ''true'')"
    if "line \<noteq> [] \<and> \<not> HasPrefix line ''#'' \<and> CHR 0x09 \<notin> set line \<and> CHR 0x20 \<notin> set line"
  proof -
    from that have "IndexAny line [CHR 0x09, CHR 0x20] = None"
      by (simp add: IndexAny_None)
    with that assms show ?thesis by (simp add: configLine_def)
  qed
  have pair: "\<exists>k gap v. configLine text = Some (k, v) \<and> line = k @ gap @ v
                 \<and> k \<noteq> [] \<and> CHR 0x09 \<notin> set k \<and> CHR 0x20 \<notin> set k
                 \<and> gap \<noteq> [] \<and> (hd gap = CHR 0x09 \<or> hd gap = CHR 0x20) \<and> isSpaces gap
                 \<and> v \<noteq> [] \<and> leadingSpace v = None \<and> trailingSpace v = None"
    if "line \<noteq> [] \<and> \<not> HasPrefix line ''#'' \<and> (CHR 0x09 \<in> set line \<or> CHR 0x20 \<in> set line)"
  proof -
    from that have "IndexAny line [CHR 0x09, CHR 0x20] \<noteq> None"
      by (auto simp: IndexAny_None)
    then obtain idx where idx: "IndexAny line [CHR 0x09, CHR 0x20] = Some idx" by auto
    with that assms
    have c: "configLine text = Some (take idx line, TrimSpace (drop idx line))"
      by (simp add: configLine_def Let_def)
    from trimmed_line_split [OF lead trail idx] c show ?thesis by metis
  qed
  from trimmed lead trail skip bare pair configLine_examples(1,2) scanConfig_snoc [of ls "text"]
  show ?thesis
    by blast
qed

theorem configLine_parse_witness:
  "configLine ([CHR 0x09] @ ''bare'' @ [CHR 0x0D]) = Some (''bare'', ''true'')
   \<and> configLine ''   # a comment'' = None
   \<and> configLine ''  key   the value  '' = Some (''key'', ''the value'')
   \<and> configAt (scanConfig [''arr value 1'', ''arr'' @ [CHR 0x09] @ ''value 2'']) ''arr''
       = [''value 1'', ''value 2'']"
proof -
  have t: "''bare'' = TrimSpace ([CHR 0x09] @ ''bare'' @ [CHR 0x0D])"
    "''# a comment'' = TrimSpace ''   # a comment''"
    "''arr'' @ [CHR 0x09] @ ''value 2'' = TrimSpace (''arr'' @ [CHR 0x09] @ ''value 2'')"
    by code_simp+
  have p: "configLine ''  key   the value  '' = Some (''key'', ''the value'')"
    by code_simp
  have c: "configAt (scanConfig [''arr value 1'']) ''arr'' = [''value 1'']"
    by code_simp
  show ?thesis
    using configLine_parse [OF t(1)] configLine_parse [OF t(2)]
      configLine_parse [OF t(3), of "[''arr value 1'']"] p c
    by (simp add: HasPrefix_def configAt_def)
qed


text \<open>
  C7, white space that is neither a tab nor a space. The vertical tab and the no-break
  space are white space (\<open>TrimSpace\<close> removes them around a line), but the line \<open>k\<close>,
  vertical tab, \<open>v\<close> is one key with the value \<open>true\<close>, and so is the line with a
  no-break space in the place of the vertical tab; and the line \<open>a\<close>, vertical tab,
  \<open>b c\<close> is cut at its second run of white space, not at its first.
\<close>

theorem configLine_white_space_counterexample:
  "TrimSpace ([CHR 0x0B] @ ''k'' @ [CHR 0x0B]) = ''k''
   \<and> configLine (''k'' @ [CHR 0x0B] @ ''v'') = Some (''k'' @ [CHR 0x0B] @ ''v'', ''true'')
   \<and> TrimSpace ([CHR 0xC2, CHR 0xA0] @ ''k'' @ [CHR 0xC2, CHR 0xA0]) = ''k''
   \<and> configLine (''k'' @ [CHR 0xC2, CHR 0xA0] @ ''v'')
       = Some (''k'' @ [CHR 0xC2, CHR 0xA0] @ ''v'', ''true'')
   \<and> configLine (''a'' @ [CHR 0x0B] @ ''b c'') = Some (''a'' @ [CHR 0x0B] @ ''b'', ''c'')"
  by code_simp

subsection \<open>The value expander\<close>

lemma Expand_Lit: "CHR ''$'' \<notin> set t \<Longrightarrow> Expand (t @ s) mapping = t @ Expand s mapping"
  by (induction t) auto

lemma IndexAny_first: "c \<notin> set n \<Longrightarrow> IndexAny (n @ c # s) [c] = Some (length n)"
  by (induction n) auto

lemma scanBrace_name:
  "n \<noteq> [] \<Longrightarrow> CHR ''}'' \<notin> set n \<Longrightarrow> scanBrace (n @ CHR ''}'' # s) = (n, length n + 2)"
  by (simp add: scanBrace_def IndexAny_first)

lemma getShellName_Braced:
  assumes "n \<noteq> []" and "CHR ''}'' \<notin> set n"
  shows "getShellName (CHR ''{'' # n @ CHR ''}'' # s) = (n, length n + 2)"
proof (cases n)
  case Nil
  with assms show ?thesis by simp
next
  case (Cons c1 n')
  show ?thesis
  proof (cases n')
    case Nil
    with Cons assms show ?thesis
      using scanBrace_name [of n s] by (auto simp: IndexAny_first)
  next
    case (Cons c2 n'')
    with \<open>n = c1 # n'\<close> assms show ?thesis
      using scanBrace_name [of n s] by auto
  qed
qed

lemma Expand_Braced:
  assumes "n \<noteq> []" and "CHR ''}'' \<notin> set n"
  shows "Expand (''${'' @ n @ ''}'' @ s) mapping = mapping n @ Expand s mapping"
  using assms getShellName_Braced [OF assms, of s] by simp

lemma not_isAlphaNum_brace: "\<not> isAlphaNum (CHR ''{'')"
  by (simp add: isAlphaNum_def)

lemma takeWhile_name:
  "list_all P n \<Longrightarrow> (case s of [] \<Rightarrow> True | c # _ \<Rightarrow> \<not> P c) \<Longrightarrow> takeWhile P (n @ s) = n"
  by (induction n) (auto split: list.splits)

lemma getShellName_Bare:
  assumes "isName n" and "case s of [] \<Rightarrow> True | c # _ \<Rightarrow> \<not> isAlphaNum c"
  shows "getShellName (n @ s) = (n, length n)"
proof -
  from assms(1) obtain c n' where n: "n = c # n'" and c: "isAlphaNum c" "\<not> isShellSpecialVar c"
    and all: "list_all isAlphaNum n"
    by (cases n) (auto simp: isName_def)
  from c(1) have "c \<noteq> CHR ''{''" using not_isAlphaNum_brace by auto
  moreover have "takeWhile isAlphaNum (n @ s) = n"
    using all assms(2) by (rule takeWhile_name)
  ultimately show ?thesis using n c(2) by (simp add: Let_def)
qed

lemma Expand_Bare:
  assumes "isName n" and "case s of [] \<Rightarrow> True | c # _ \<Rightarrow> \<not> isAlphaNum c"
  shows "Expand (''$'' @ n @ s) mapping = mapping n @ Expand s mapping"
proof -
  from assms(1) have "n \<noteq> []" by (simp add: isName_def)
  then have "n @ s \<noteq> []" by simp
  with getShellName_Bare [OF assms] \<open>n \<noteq> []\<close> show ?thesis by simp
qed

lemma not_special_brace: "\<not> isShellSpecialVar (CHR ''{'')" "\<not> isShellSpecialVar (CHR ''}'')"
  by (simp_all add: isShellSpecialVar_def)

lemma Expand_Special:
  "isShellSpecialVar c \<Longrightarrow> Expand (CHR ''$'' # c # s) mapping = mapping [c] @ Expand s mapping"
  using not_special_brace by auto

lemma Expand_Dollar:
  assumes "case s of [] \<Rightarrow> True | c # _ \<Rightarrow> \<not> startsName c"
  shows "Expand (CHR ''$'' # s) mapping = CHR ''$'' # Expand s mapping"
proof (cases s)
  case Nil
  then show ?thesis by simp
next
  case (Cons c s')
  with assms have c: "c \<noteq> CHR ''{''" "\<not> isShellSpecialVar c" "\<not> isAlphaNum c"
    by (auto simp: startsName_def)
  then have "getShellName s = ([], 0)"
    using Cons by (simp add: Let_def)
  with Cons show ?thesis by simp
qed

lemma Expand_EmptyBraces: "Expand (''${}'' @ s) mapping = Expand s mapping"
proof -
  have "scanBrace (CHR ''}'' # s) = ([], 2)"
    by (simp add: scanBrace_def)
  then have "getShellName (CHR ''{'' # CHR ''}'' # s) = ([], 2)"
    using not_special_brace by (cases s) simp_all
  then show ?thesis by simp
qed

lemma Expand_OpenBrace:
  assumes "CHR ''}'' \<notin> set s"
  shows "Expand (''${'' @ s) mapping = Expand s mapping"
proof -
  from assms have "IndexAny s ''}'' = None"
    by (simp add: IndexAny_None)
  then have sb: "scanBrace s = ([], 1)"
    by (simp add: scanBrace_def)
  have "getShellName (CHR ''{'' # s) = ([], 1)"
  proof (cases s)
    case Nil
    with sb show ?thesis by simp
  next
    case (Cons c1 s1)
    show ?thesis
    proof (cases s1)
      case Nil
      with Cons sb show ?thesis by simp
    next
      case (Cons c2 s2)
      with \<open>s = c1 # s1\<close> assms have "c2 \<noteq> CHR ''}''" by auto
      with Cons \<open>s = c1 # s1\<close> sb show ?thesis by simp
    qed
  qed
  then show ?thesis by simp
qed

lemma Expand_segments:
  "wellFormed segs \<Longrightarrow>
   Expand (concat (map render segs)) mapping = concat (map (substitute mapping) segs)"
proof (induction segs rule: wellFormed.induct)
  case 1
  show ?case by simp
next
  case (2 t segs)
  then show ?case by (simp add: Expand_Lit)
next
  case (3 n segs)
  then show ?case using Expand_Braced [of n "concat (map render segs)" mapping] by simp
next
  case (4 n segs)
  then show ?case using Expand_Bare [of n "concat (map render segs)" mapping] by simp
next
  case (5 c segs)
  then show ?case using Expand_Special [of c "concat (map render segs)" mapping] by simp
next
  case (6 segs)
  then show ?case using Expand_Dollar [of "concat (map render segs)" mapping] by simp
next
  case (7 segs)
  then show ?case using Expand_EmptyBraces [of "concat (map render segs)" mapping] by simp
next
  case (8 segs)
  then show ?case using Expand_OpenBrace [of "concat (map render segs)" mapping] by simp
qed

text \<open>Every string can be read as a well-formed sequence.\<close>

lemma every_string_readable: "\<exists>segs. wellFormed segs \<and> concat (map render segs) = s"
proof (induction "length s" arbitrary: s rule: less_induct)
  case less
  show ?case
  proof (cases s)
    case Nil
    have "wellFormed [] \<and> concat (map render []) = []" by simp
    with Nil show ?thesis by blast
  next
    case (Cons c rest)
    show ?thesis
    proof (cases "c = CHR ''$''")
      case False
      from less [of rest] Cons obtain segs where segs: "wellFormed segs" "concat (map render segs) = rest"
        by auto
      with False Cons have "wellFormed (Lit [c] # segs) \<and> concat (map render (Lit [c] # segs)) = s"
        by simp
      then show ?thesis by blast
    next
      case True
      note dollar = this
      show ?thesis
      proof (cases rest)
        case Nil
        with Cons dollar have "wellFormed [Dollar] \<and> concat (map render [Dollar]) = s" by simp
        then show ?thesis by blast
      next
        case (Cons d rest')
        note rest = this
        consider (brace) "d = CHR ''{''"
          | (special) "d \<noteq> CHR ''{''" "isShellSpecialVar d"
          | (name) "d \<noteq> CHR ''{''" "\<not> isShellSpecialVar d" "isAlphaNum d"
          | (other) "\<not> startsName d"
          by (auto simp: startsName_def)
        then show ?thesis
        proof cases
          case brace
          show ?thesis
          proof (cases "CHR ''}'' \<in> set rest'")
            case False
            from less [of rest'] \<open>s = c # rest\<close> rest
            obtain segs where segs: "wellFormed segs" "concat (map render segs) = rest'"
              by auto
            with False brace dollar \<open>s = c # rest\<close> rest
            have "wellFormed (OpenBrace # segs) \<and> concat (map render (OpenBrace # segs)) = s"
              by simp
            then show ?thesis by blast
          next
            case True
            then obtain n tail where split: "rest' = n @ CHR ''}'' # tail" "CHR ''}'' \<notin> set n"
              by (auto dest: split_list_first)
            from less [of tail] \<open>s = c # rest\<close> rest split(1)
            obtain segs where segs: "wellFormed segs" "concat (map render segs) = tail"
              by auto
            show ?thesis
            proof (cases "n = []")
              case True
              with segs split brace dollar \<open>s = c # rest\<close> rest
              have "wellFormed (EmptyBraces # segs) \<and> concat (map render (EmptyBraces # segs)) = s"
                by simp
              then show ?thesis by blast
            next
              case False
              with segs split brace dollar \<open>s = c # rest\<close> rest
              have "wellFormed (Braced n # segs) \<and> concat (map render (Braced n # segs)) = s"
                by simp
              then show ?thesis by blast
            qed
          qed
        next
          case special
          from less [of rest'] \<open>s = c # rest\<close> rest
          obtain segs where segs: "wellFormed segs" "concat (map render segs) = rest'"
            by auto
          with special dollar \<open>s = c # rest\<close> rest
          have "wellFormed (Special d # segs) \<and> concat (map render (Special d # segs)) = s"
            by simp
          then show ?thesis by blast
        next
          case name
          let ?n = "takeWhile isAlphaNum rest" and ?tail = "dropWhile isAlphaNum rest"
          have n: "?n \<noteq> []" "hd ?n = d" "list_all isAlphaNum ?n"
            using rest name(3) by (auto simp: list_all_iff dest: set_takeWhileD)
          then have isn: "isName ?n" using name(2) by (simp add: isName_def)
          have "length ?tail < length s"
            using \<open>s = c # rest\<close> by (simp add: length_dropWhile_le le_imp_less_Suc)
          from less [OF this]
          obtain segs where segs: "wellFormed segs" "concat (map render segs) = ?tail"
            by auto
          have "case ?tail of [] \<Rightarrow> True | c # _ \<Rightarrow> \<not> isAlphaNum c"
          proof (cases ?tail)
            case Nil
            show ?thesis unfolding Nil by simp
          next
            case (Cons a tl')
            then have "?tail \<noteq> []" by simp
            from hd_dropWhile [OF this] Cons show ?thesis by simp
          qed
          with isn segs dollar \<open>s = c # rest\<close>
          have "wellFormed (Bare ?n # segs) \<and> concat (map render (Bare ?n # segs)) = s"
            by simp
          then show ?thesis by blast
        next
          case other
          from less [of rest] \<open>s = c # rest\<close>
          obtain segs where segs: "wellFormed segs" "concat (map render segs) = rest"
            by auto
          with other dollar \<open>s = c # rest\<close> rest
          have "wellFormed (Dollar # segs) \<and> concat (map render (Dollar # segs)) = s"
            by simp
          then show ?thesis by blast
        qed
      qed
    qed
  qed
qed

lemma ParseEnvSet_calls:
  "map callOf (rCalls (ParseEnvSet vSet upperCase readEnvPrefix fl env h)) =
     concat (map (\<lambda>f. if Name f \<in> getSetFlags fl then []
                      else map (\<lambda>v. (Name f, envExpand env v))
                             (splitEscape (envAt (genEnvMap env)
                                (envKeyForFlag upperCase (readEnvPrefix fl) (Name f))) '','' [CHR 0x5C]))
               (formal fl))"
  by (simp add: ParseEnvSet_runPass runPass_calls dueCalls_def envValues_def cong: if_cong)

lemma ParseConfigSet_calls:
  assumes "path \<noteq> []" and "osOpen (envExpand env path) = Inr fi" and "scanErr fi = None"
  shows "map callOf (rCalls (ParseConfigSet vSet osOpen fl env path h)) =
     concat (map (\<lambda>f. if Name f \<in> getSetFlags fl then []
                      else map (\<lambda>v. (Name f, envExpand env v))
                             (configAt (scanConfig (scanned fi)) (Name f)))
               (formal fl))"
  using assms
  by (simp add: ParseConfigSet_runPass runPass_calls dueCalls_def configValues_def cong: if_cong)

lemma ParseConfigSet_opens_expanded:
  "osOpen (envExpand env path) = osOpen' (envExpand env path) \<Longrightarrow>
   ParseConfigSet vSet osOpen fl env path h = ParseConfigSet vSet osOpen' fl env path h"
  by (simp add: ParseConfigSet_def Expand_envExpand)

lemma homeFS_calls:
  "map callOf (rCalls (ParseConfigSet testSet homeFS (testFlags ContinueOnError)
                         [''HOME=/x''] ''$HOME/conf'' testMemory))
     = [(''arr'', ''/x/a''), (''arr'', ''.b''), (''str'', ''/x/dir'')]"
  by code_simp

lemma homeFS_memory:
  "rMemory (ParseConfigSet testSet homeFS (testFlags ContinueOnError)
              [''HOME=/x''] ''$HOME/conf'' testMemory) ''str''
     = StringValue ''/x/dir''"
  by code_simp

text \<open>
  C8. Every string can be read as a sequence of literal text and references \<open>$NAME\<close> and
  \<open>${NAME}\<close> (with the four other kinds of segment where a \<open>$\<close> begins no such
  reference), and for every such reading the expander gives the string with every
  reference replaced by the snapshot's value for the name, the empty string for a name
  that the snapshot does not have; the values put in are not expanded again (they stand
  in the result as they are, whatever they contain). \<open>ParseEnvSet\<close> calls the setters
  with the expansion of each token split from the environment value; \<open>ParseConfigSet\<close>
  calls them with the expansion of each value of the file; and the file it opens is the
  one at the expanded path, no other path matters. With \<open>HOME=/x\<close>, the file
  \<open>$HOME/conf\<close> and the line \<open>str $HOME/dir\<close> in it, the setter of the flag \<open>str\<close>
  is called with \<open>/x/dir\<close>, which its variable holds after the call.
\<close>

theorem values_expanded:
  "(\<exists>reading. wellFormed reading \<and> concat (map render reading) = s)
   \<and> (wellFormed segs \<longrightarrow>
      envExpand env (concat (map render segs))
        = concat (map (substitute (envAt (genEnvMap env))) segs))
   \<and> envAt (genEnvMap env) k = (case genEnvMap env k of None \<Rightarrow> [] | Some v \<Rightarrow> v)
   \<and> map callOf (rCalls (ParseEnvSet vSet upperCase readEnvPrefix fl env h)) =
       concat (map (\<lambda>f. if Name f \<in> getSetFlags fl then []
                        else map (\<lambda>v. (Name f, envExpand env v))
                               (splitEscape (envAt (genEnvMap env)
                                  (envKeyForFlag upperCase (readEnvPrefix fl) (Name f))) '','' [CHR 0x5C]))
                 (formal fl))
   \<and> (path \<noteq> [] \<and> osOpen (envExpand env path) = Inr fi \<and> scanErr fi = None \<longrightarrow>
        map callOf (rCalls (ParseConfigSet vSet osOpen fl env path h)) =
        concat (map (\<lambda>f. if Name f \<in> getSetFlags fl then []
                         else map (\<lambda>v. (Name f, envExpand env v))
                                (configAt (scanConfig (scanned fi)) (Name f)))
                  (formal fl)))
   \<and> (osOpen (envExpand env path) = osOpen' (envExpand env path) \<longrightarrow>
        ParseConfigSet vSet osOpen fl env path h = ParseConfigSet vSet osOpen' fl env path h)
   \<and> map callOf (rCalls (ParseConfigSet testSet homeFS (testFlags ContinueOnError)
                           [''HOME=/x''] ''$HOME/conf'' testMemory))
       = [(''arr'', ''/x/a''), (''arr'', ''.b''), (''str'', ''/x/dir'')]
   \<and> rMemory (ParseConfigSet testSet homeFS (testFlags ContinueOnError)
                 [''HOME=/x''] ''$HOME/conf'' testMemory) ''str''
       = StringValue ''/x/dir''"
proof (intro conjI impI)
  show "\<exists>reading. wellFormed reading \<and> concat (map render reading) = s"
    by (rule every_string_readable)
  show "envExpand env (concat (map render segs))
          = concat (map (substitute (envAt (genEnvMap env))) segs)"
    if "wellFormed segs"
    using that Expand_segments [of segs "envAt (genEnvMap env)"]
    by (simp add: Expand_envExpand)
  show "envAt (genEnvMap env) k = (case genEnvMap env k of None \<Rightarrow> [] | Some v \<Rightarrow> v)"
    by (simp add: envAt_def)
  show "map callOf (rCalls (ParseEnvSet vSet upperCase readEnvPrefix fl env h)) =
       concat (map (\<lambda>f. if Name f \<in> getSetFlags fl then []
                        else map (\<lambda>v. (Name f, envExpand env v))
                               (splitEscape (envAt (genEnvMap env)
                                  (envKeyForFlag upperCase (readEnvPrefix fl) (Name f))) '','' [CHR 0x5C]))
                 (formal fl))"
    by (rule ParseEnvSet_calls)
  show "map callOf (rCalls (ParseConfigSet vSet osOpen fl env path h)) =
        concat (map (\<lambda>f. if Name f \<in> getSetFlags fl then []
                         else map (\<lambda>v. (Name f, envExpand env v))
                                (configAt (scanConfig (scanned fi)) (Name f)))
                  (formal fl))"
    if "path \<noteq> [] \<and> osOpen (envExpand env path) = Inr fi \<and> scanErr fi = None"
    using that by (intro ParseConfigSet_calls) simp_all
  show "ParseConfigSet vSet osOpen fl env path h = ParseConfigSet vSet osOpen' fl env path h"
    if "osOpen (envExpand env path) = osOpen' (envExpand env path)"
    using that by (rule ParseConfigSet_opens_expanded)
  show "map callOf (rCalls (ParseConfigSet testSet homeFS (testFlags ContinueOnError)
                           [''HOME=/x''] ''$HOME/conf'' testMemory))
       = [(''arr'', ''/x/a''), (''arr'', ''.b''), (''str'', ''/x/dir'')]"
    by (rule homeFS_calls)
  show "rMemory (ParseConfigSet testSet homeFS (testFlags ContinueOnError)
                   [''HOME=/x''] ''$HOME/conf'' testMemory) ''str''
          = StringValue ''/x/dir''"
    by (rule homeFS_memory)
qed

theorem values_expanded_witness:
  "envExpand [''HOME=/x'', ''A=$B'', ''B=y''] ''$HOME/dir:${A}:$MISSING.$'' = ''/x/dir:$B:.$''
   \<and> map callOf (rCalls (ParseEnvSet testSet latin1UpperCase ReadEnvPrefix
                           (testFlags ContinueOnError)
                           [''HOME=/x'', ''TEST_ARR=$HOME/a,${HOME}b''] testMemory))
       = [(''arr'', ''/x/a''), (''arr'', ''/xb'')]
   \<and> map callOf (rCalls (ParseConfigSet testSet homeFS (testFlags ContinueOnError)
                           [''HOME=/x''] ''$HOME/conf'' testMemory))
       = [(''arr'', ''/x/a''), (''arr'', ''.b''), (''str'', ''/x/dir'')]
   \<and> rMemory (ParseConfigSet testSet homeFS (testFlags ContinueOnError)
                 [''HOME=/x''] ''$HOME/conf'' testMemory) ''str''
       = StringValue ''/x/dir''"
proof -
  let ?env = "[''HOME=/x'', ''A=$B'', ''B=y'']"
  let ?segs = "[Bare ''HOME'', Lit ''/dir:'', Braced ''A'', Lit '':'', Bare ''MISSING'', Lit ''.'',
                Dollar]"
  let ?fl = "testFlags ContinueOnError"
  let ?env2 = "[''HOME=/x'', ''TEST_ARR=$HOME/a,${HOME}b'']"
  let ?fi = "\<lparr>scanned = [''str $HOME/dir'', ''arr ${HOME}/a'', ''arr $MISSING.b''],
               scanErr = None\<rparr>"
  have wf: "wellFormed ?segs"
    by code_simp
  have r: "concat (map render ?segs) = ''$HOME/dir:${A}:$MISSING.$''"
    by simp
  have s: "concat (map (substitute (envAt (genEnvMap ?env))) ?segs) = ''/x/dir:$B:.$''"
    by code_simp
  have e: "concat (map (\<lambda>f. if Name f \<in> getSetFlags ?fl then []
                        else map (\<lambda>v. (Name f, envExpand ?env2 v))
                               (splitEscape (envAt (genEnvMap ?env2)
                                  (envKeyForFlag latin1UpperCase (ReadEnvPrefix ?fl) (Name f)))
                                  '','' [CHR 0x5C]))
                 (formal ?fl)) = [(''arr'', ''/x/a''), (''arr'', ''/xb'')]"
    by code_simp
  have op: "homeFS (envExpand [''HOME=/x''] ''$HOME/conf'') = Inr ?fi"
    by code_simp
  have e2: "concat (map (\<lambda>f. if Name f \<in> getSetFlags ?fl then []
                         else map (\<lambda>v. (Name f, envExpand [''HOME=/x''] v))
                                (configAt (scanConfig (scanned ?fi)) (Name f)))
                  (formal ?fl)) = [(''arr'', ''/x/a''), (''arr'', ''.b''), (''str'', ''/x/dir'')]"
    by code_simp
  show ?thesis
    using values_expanded [where s = "[]" and segs = ?segs and env = ?env and k = "[]"
        and vSet = testSet and upperCase = latin1UpperCase and readEnvPrefix = ReadEnvPrefix
        and fl = ?fl and h = testMemory and path = "[]" and osOpen = homeFS and osOpen' = homeFS
        and fi = ?fi]
      values_expanded [where s = "[]" and segs = "[]" and env = ?env2 and k = "[]"
        and vSet = testSet and upperCase = latin1UpperCase and readEnvPrefix = ReadEnvPrefix
        and fl = ?fl and h = testMemory and path = "[]" and osOpen = homeFS and osOpen' = homeFS
        and fi = ?fi]
      values_expanded [where s = "[]" and segs = "[]" and env = "[''HOME=/x'']" and k = "[]"
        and vSet = testSet and upperCase = latin1UpperCase and readEnvPrefix = ReadEnvPrefix
        and fl = ?fl and h = testMemory and path = "''$HOME/conf''" and osOpen = homeFS
        and osOpen' = homeFS and fi = ?fi]
      wf r s e op e2
    by simp
qed

subsection \<open>The earlier revision\<close>

lemma ascii_dash:
  "list_all (\<lambda>c. (of_char c :: nat) < 0x80) s \<Longrightarrow>
   list_all (\<lambda>c. (of_char c :: nat) < 0x80) (ReplaceAll s ''-'' ''_'')"
  by (auto simp: ReplaceAll_dash list_all_iff)

lemma envKeyForFlag_earlier_ascii:
  assumes "list_all (\<lambda>c. (of_char c :: nat) < 0x80) prefix"
    and "list_all (\<lambda>c. (of_char c :: nat) < 0x80) name"
  shows "envKeyForFlag_earlier upperCase prefix name
           = upperSnake upperCase prefix @ ''_'' @ upperSnake upperCase name"
proof -
  let ?p = "ReplaceAll prefix ''-'' ''_''"
  let ?n = "ReplaceAll name ''-'' ''_''"
  have p: "list_all (\<lambda>c. (of_char c :: nat) < 0x80) ?p"
    and n: "list_all (\<lambda>c. (of_char c :: nat) < 0x80) ?n"
    using assms by (simp_all add: ascii_dash)
  then have "list_all (\<lambda>c. (of_char c :: nat) < 0x80) (?p @ ''_'' @ ?n)"
    by simp
  then have "ToUpper upperCase (?p @ ''_'' @ ?n) = map upperByte (?p @ ''_'' @ ?n)"
    by (rule ToUpper_ascii)
  moreover have "upperByte (CHR ''_'') = CHR ''_''"
    by (simp add: upperByte_def)
  moreover have "ToUpper upperCase ?p = map upperByte ?p" "ToUpper upperCase ?n = map upperByte ?n"
    using p n by (simp_all add: ToUpper_ascii)
  moreover have "upperSnake upperCase prefix = ToUpper upperCase ?p"
    "upperSnake upperCase name = ToUpper upperCase ?n"
    by (simp_all add: upperSnake_def ReplaceAll_dash)
  ultimately show ?thesis
    by (simp add: envKeyForFlag_earlier_def)
qed

lemma envKeyForFlag_earlier_prefix:
  "prefix \<noteq> [] \<Longrightarrow> list_all (\<lambda>c. (of_char c :: nat) < 0x80) prefix \<Longrightarrow>
   list_all (\<lambda>c. (of_char c :: nat) < 0x80) name \<Longrightarrow>
   envKeyForFlag_earlier upperCase prefix name = envKeyForFlag upperCase prefix name"
  by (simp add: envKeyForFlag_earlier_ascii envKeyForFlag_eq)

lemma envKeyForFlag_earlier_no_prefix:
  "envKeyForFlag_earlier upperCase [] ''some-string'' = ''_SOME_STRING''"
proof -
  have "upperSnake upperCase [] = []"
    by (simp add: upperSnake_def ToUpper_def)
  then show ?thesis
    by (simp add: envKeyForFlag_earlier_ascii upperSnake_examples)
qed

lemma configLine_earlier_examples:
  "configLine_earlier {''arr'', ''config-path'', ''str'', ''will-err''}
     (''arr'' @ [CHR 0x09] @ ''value 2'') = UnknownOption (''arr'' @ [CHR 0x09] @ ''value'')"
  "configLine_earlier {''arr'', ''config-path'', ''str'', ''will-err''} ''uh'' = Continue"
  "configLine_earlier {''arr'', ''config-path'', ''str'', ''will-err''} ''unknown-option hello''
     = UnknownOption ''unknown-option''"
  "configLine_earlier {''arr'', ''config-path'', ''str'', ''will-err''} ''arr value 1''
     = Append ''arr'' ''value 1''"
  by code_simp+

end
